theory Spec2Isabelle
  imports Complex_Main "HOL-Library.Sublist" "HOL-Library.Multiset" "HOL-Library.Product_Lexorder"
begin

text \<open>
  A shallow embedding of the subreddit scanner: the sliding-window rate limiter, the Store
  (one SQLite table), the API client with its retry loop, and the orchestrator that drives
  one item at a time in refresh mode and in list-file mode. Each Python function is a HOL
  function of the same name on an explicit state; what the outside supplies (clock
  readings, responses, random draws) is an argument. An exception is a value: \<open>Inl\<close> of a
  sum, caught where the source has its \<^verbatim>\<open>except\<close> clause. The definitions come first, the
  properties after them.
\<close>

section \<open>Rate limiter (\<^verbatim>\<open>rate_limiter.py\<close>)\<close>

text \<open>
  \<^verbatim>\<open>SlidingWindowRateLimiter\<close> keeps three deques of timestamps and three capacities.
  Timestamps are the floats of \<^verbatim>\<open>time.time()\<close>; they are modelled as real numbers, and
  every call of \<^verbatim>\<open>time.time()\<close> takes the next reading of an explicit list of clock
  readings. \<^verbatim>\<open>asyncio.sleep\<close> only lets time pass, so it shows in the readings that
  follow it and nowhere else. The lock is not modelled: one caller at a time.
\<close>

record limiter =
  requests_per_minute :: int
  requests_per_10s :: int
  requests_per_1s :: int
  window_60s :: "real list"
  window_10s :: "real list"
  window_1s :: "real list"
  total_requests :: nat
  total_wait_time :: real
  requests_blocked :: nat

datatype py_error = IndexError

datatype acquired = Returned bool | Raised py_error

text \<open>
  \<^verbatim>\<open>_cleanup_window\<close>: pop from the left while the oldest timestamp is strictly older
  than \<^verbatim>\<open>now - max_age\<close>; \<open>now\<close> is the reading this call takes.
\<close>

definition cleanup_window :: "real \<Rightarrow> real list \<Rightarrow> real \<Rightarrow> real list" where
  "cleanup_window now window max_age = dropWhile (\<lambda>t. t < now - max_age) window"

text \<open>
  One check of \<^verbatim>\<open>_get_wait_time\<close>: a window at or over its capacity contributes
  \<^verbatim>\<open>(window[0] + horizon) - now\<close>; \<^verbatim>\<open>window[0]\<close> on an empty deque raises.
\<close>

definition window_wait :: "real \<Rightarrow> real list \<Rightarrow> int \<Rightarrow> real \<Rightarrow> py_error + real list" where
  "window_wait now window capacity horizon =
     (if int (length window) \<ge> capacity
      then (case window of [] \<Rightarrow> Inl IndexError | oldest # _ \<Rightarrow> Inr [(oldest + horizon) - now])
      else Inr [])"

fun max_list :: "real list \<Rightarrow> real" where
  "max_list [] = 0"
| "max_list [x] = x"
| "max_list (x # y # ys) = max x (max_list (y # ys))"

text \<open>
  \<^verbatim>\<open>_get_wait_time\<close> reads the clock four times: \<open>now\<close> first, then once in each of the
  three clean-ups (\<open>c60\<close>, \<open>c10\<close>, \<open>c1\<close>). The clean-ups are done before any check, so
  they persist when a check raises.
\<close>

definition get_wait_time ::
  "real \<Rightarrow> real \<Rightarrow> real \<Rightarrow> real \<Rightarrow> limiter \<Rightarrow> (py_error + real) \<times> limiter" where
  "get_wait_time now c60 c10 c1 L =
     (let L' = L\<lparr>window_60s := cleanup_window c60 (window_60s L) 60,
                 window_10s := cleanup_window c10 (window_10s L) 10,
                 window_1s := cleanup_window c1 (window_1s L) 1\<rparr>
      in case window_wait now (window_60s L') (requests_per_minute L') 60 of
           Inl e \<Rightarrow> (Inl e, L')
         | Inr w60 \<Rightarrow>
             (case window_wait now (window_10s L') (requests_per_10s L') 10 of
                Inl e \<Rightarrow> (Inl e, L')
              | Inr w10 \<Rightarrow>
                  (case window_wait now (window_1s L') (requests_per_1s L') 1 of
                     Inl e \<Rightarrow> (Inl e, L')
                   | Inr w1 \<Rightarrow> (Inr (max_list (w60 @ w10 @ w1)), L'))))"

text \<open>The grant: the timestamp \<open>t\<close> is appended to all three windows.\<close>

definition record_grant :: "real \<Rightarrow> real \<Rightarrow> limiter \<Rightarrow> limiter" where
  "record_grant start_time t L =
     L\<lparr>window_60s := window_60s L @ [t],
       window_10s := window_10s L @ [t],
       window_1s := window_1s L @ [t],
       total_requests := total_requests L + 1,
       total_wait_time := total_wait_time L + (t - start_time)\<rparr>"

definition note_blocked :: "limiter \<Rightarrow> limiter" where
  "note_blocked L = L\<lparr>requests_blocked := requests_blocked L + 1\<rparr>"

text \<open>
  The \<^verbatim>\<open>while True\<close> loop of \<^verbatim>\<open>acquire\<close>. Each round takes four readings for
  \<^verbatim>\<open>_get_wait_time\<close>; a grant takes one more (the recorded timestamp), and so does
  the time-out check when a time-out was given. The loop has no bound of its own: the
  model returns \<open>None\<close> when the readings run out before the loop has returned.
\<close>

fun acquire_loop ::
  "real option \<Rightarrow> real \<Rightarrow> real list \<Rightarrow> limiter \<Rightarrow> (acquired \<times> limiter) option" where
  "acquire_loop timeout start_time (now # c60 # c10 # c1 # rest) L =
     (case get_wait_time now c60 c10 c1 L of
        (Inl e, L') \<Rightarrow> Some (Raised e, L')
      | (Inr wait_time, L') \<Rightarrow>
          (if wait_time \<le> 0 then
             (case rest of
                [] \<Rightarrow> None
              | t # _ \<Rightarrow> Some (Returned True, record_grant start_time t L'))
           else
             (case timeout of
                None \<Rightarrow> acquire_loop timeout start_time rest (note_blocked L')
              | Some limit \<Rightarrow>
                  (case rest of
                     [] \<Rightarrow> None
                   | t # rest' \<Rightarrow>
                       if (t - start_time) + wait_time > limit
                       then Some (Returned False, note_blocked L')
                       else acquire_loop timeout start_time rest' (note_blocked L')))))"
| "acquire_loop timeout start_time _ L = None"

text \<open>\<^verbatim>\<open>acquire\<close>: the first reading is \<^verbatim>\<open>start_time\<close>.\<close>

fun acquire :: "real option \<Rightarrow> real list \<Rightarrow> limiter \<Rightarrow> (acquired \<times> limiter) option" where
  "acquire timeout [] L = None"
| "acquire timeout (start_time # clock) L = acquire_loop timeout start_time clock L"

text \<open>
  A run of calls without time-out, each with its own readings; it stops at the first
  call that does not return granted.
\<close>

fun acquire_all :: "real list list \<Rightarrow> limiter \<Rightarrow> (bool list \<times> limiter) option" where
  "acquire_all [] L = Some ([], L)"
| "acquire_all (clock # clocks) L =
     (case acquire None clock L of
        Some (Returned True, L') \<Rightarrow>
          (case acquire_all clocks L' of
             Some (gs, L'') \<Rightarrow> Some (True # gs, L'')
           | None \<Rightarrow> None)
      | _ \<Rightarrow> None)"

text \<open>The configured defaults of \<^verbatim>\<open>config.py\<close>: 60 per minute, 12 per 10 s, 2 per second.\<close>

definition default_limiter :: limiter where
  "default_limiter =
     \<lparr>requests_per_minute = 60, requests_per_10s = 12, requests_per_1s = 2,
      window_60s = [], window_10s = [], window_1s = [],
      total_requests = 0, total_wait_time = 0, requests_blocked = 0\<rparr>"

text \<open>
  What pruning may do to a window: drop a prefix, each dropped timestamp older than the
  horizon at some reading of the clock.
\<close>

definition pruned :: "real \<Rightarrow> real list \<Rightarrow> real list \<Rightarrow> real list \<Rightarrow> bool" where
  "pruned horizon clock w w' \<longleftrightarrow>
     (\<exists>pre. w = pre @ w' \<and> (\<forall>x\<in>set pre. \<exists>c\<in>set clock. x < c - horizon))"

definition only_pruned :: "real list \<Rightarrow> limiter \<Rightarrow> limiter \<Rightarrow> bool" where
  "only_pruned clock L L' \<longleftrightarrow>
     L' = L\<lparr>window_60s := window_60s L', window_10s := window_10s L',
            window_1s := window_1s L', requests_blocked := requests_blocked L'\<rparr>
     \<and> pruned 60 clock (window_60s L) (window_60s L')
     \<and> pruned 10 clock (window_10s L) (window_10s L')
     \<and> pruned 1 clock (window_1s L) (window_1s L')
     \<and> requests_blocked L \<le> requests_blocked L'"

text \<open>The grants of a window that lie in the trailing interval \<open>(t - horizon, t]\<close>.\<close>

definition grants_within :: "real \<Rightarrow> real \<Rightarrow> real list \<Rightarrow> nat" where
  "grants_within horizon t w = length (filter (\<lambda>x. t - horizon < x \<and> x \<le> t) w)"

text \<open>
  A limiter with the default capacities whose one-second and ten-second windows hold two
  grants made at time 100, and whose minute window also holds an older one.
\<close>

definition saturated_limiter :: limiter where
  "saturated_limiter = default_limiter\<lparr>window_60s := [30, 100, 100], window_10s := [100, 100],
      window_1s := [100, 100], total_requests := 3\<rparr>"

section \<open>Store (\<^verbatim>\<open>database.py\<close>)\<close>

text \<open>
  The table \<^verbatim>\<open>subreddits\<close>: a row gives every column of the schema a value, the table
  is the list of its rows in insertion order, and \<^verbatim>\<open>name\<close> is the primary key. SQL
  values are NULL, integers and text; booleans are stored as the integers 0 and 1.
\<close>

datatype sqlval = SNull | SInt int | SText string

datatype column =
    Name | Title | Description | Subscribers | Active_users | Over_18 | Subreddit_type
  | Created_utc | Icon_url | Primary_color | Advertiser_category | Submission_type
  | Allow_images | Allow_videos | Allow_galleries | Allow_videogifs | Allow_polls
  | Link_flair_enabled | Spoilers_enabled | Whitelist_status | Category | Tags | Language
  | Status | Is_accessible | Last_updated | Retry_count | Error_message | Metadata_collected

type_synonym row = "column \<Rightarrow> sqlval"
type_synonym table = "row list"

text \<open>
  \<^verbatim>\<open>str.lower()\<close> and \<^verbatim>\<open>str.strip()\<close> on ASCII text: upper-case letters get bit 5 set;
  the white space stripped is the characters 9 to 13 and 28 to 32.
\<close>

fun lower_char :: "char \<Rightarrow> char" where
  "lower_char (Char b0 b1 b2 b3 b4 b5 b6 b7) =
     (let n = (of_char (Char b0 b1 b2 b3 b4 b5 b6 b7) :: nat)
      in if 65 \<le> n \<and> n \<le> 90 then Char b0 b1 b2 b3 b4 True b6 b7
         else Char b0 b1 b2 b3 b4 b5 b6 b7)"

definition lower :: "string \<Rightarrow> string" where
  "lower s = map lower_char s"

definition is_space :: "char \<Rightarrow> bool" where
  "is_space c = (let n = (of_char c :: nat) in (9 \<le> n \<and> n \<le> 13) \<or> (28 \<le> n \<and> n \<le> 32))"

definition strip :: "string \<Rightarrow> string" where
  "strip s = rev (dropWhile is_space (rev (dropWhile is_space s)))"

text \<open>The statements the scanner issues, each on the rows a \<^verbatim>\<open>WHERE\<close> clause selects.\<close>

definition sql_update :: "(row \<Rightarrow> bool) \<Rightarrow> (row \<Rightarrow> row) \<Rightarrow> table \<Rightarrow> table" where
  "sql_update cond set_cols tbl = map (\<lambda>r. if cond r then set_cols r else r) tbl"

definition sql_delete :: "(row \<Rightarrow> bool) \<Rightarrow> table \<Rightarrow> table" where
  "sql_delete cond tbl = filter (\<lambda>r. \<not> cond r) tbl"

definition rowcount :: "(row \<Rightarrow> bool) \<Rightarrow> table \<Rightarrow> nat" where
  "rowcount cond tbl = length (filter cond tbl)"

definition name_is :: "string \<Rightarrow> row \<Rightarrow> bool" where
  "name_is k r \<longleftrightarrow> r Name = SText k"

definition fetchone :: "string \<Rightarrow> table \<Rightarrow> row option" where
  "fetchone k tbl = find (name_is k) tbl"

text \<open>A row as \<^verbatim>\<open>INSERT\<close> makes it from the three given columns and the schema's defaults.\<close>

definition inserted_row :: "string \<Rightarrow> row" where
  "inserted_row k =
     (\<lambda>c. SNull)(Name := SText k, Status := SText ''pending'', Metadata_collected := SInt 0,
       Allow_images := SInt 1, Allow_videos := SInt 1, Allow_galleries := SInt 0,
       Allow_videogifs := SInt 0, Allow_polls := SInt 0, Link_flair_enabled := SInt 0,
       Spoilers_enabled := SInt 0, Language := SText ''en'', Is_accessible := SInt 1,
       Retry_count := SInt 0)"

text \<open>\<^verbatim>\<open>add_subreddit\<close>: \<^verbatim>\<open>INSERT OR IGNORE\<close> under the lower-cased name.\<close>

definition add_subreddit :: "string \<Rightarrow> table \<Rightarrow> bool \<times> table" where
  "add_subreddit name tbl =
     (if fetchone (lower name) tbl = None
      then (True, tbl @ [inserted_row (lower name)])
      else (False, tbl))"

definition opt_text :: "string option \<Rightarrow> sqlval" where
  "opt_text m = (case m of None \<Rightarrow> SNull | Some t \<Rightarrow> SText t)"

definition bool_int :: "bool \<Rightarrow> sqlval" where
  "bool_int b = SInt (if b then 1 else 0)"

text \<open>\<^verbatim>\<open>update_subreddit_status\<close>: only \<^verbatim>\<open>active\<close> and \<^verbatim>\<open>pending\<close> are accessible.\<close>

definition update_subreddit_status :: "string \<Rightarrow> string \<Rightarrow> string option \<Rightarrow> table \<Rightarrow> table" where
  "update_subreddit_status name status error_message tbl =
     (let is_accessible = (if status \<in> {''active'', ''pending''} then 1 else 0)
      in sql_update (name_is (lower name))
           (\<lambda>r. r(Status := SText status, Is_accessible := SInt is_accessible,
                  Error_message := opt_text error_message)) tbl)"

text \<open>
  \<^verbatim>\<open>update_subreddit\<close>: status and error message always, \<^verbatim>\<open>metadata_collected\<close> only
  when it is given.
\<close>

definition update_subreddit ::
  "string \<Rightarrow> string \<Rightarrow> string option \<Rightarrow> bool option \<Rightarrow> table \<Rightarrow> table" where
  "update_subreddit subreddit status error_message metadata_collected tbl =
     sql_update (name_is (lower subreddit))
       (\<lambda>r. case metadata_collected of
               None \<Rightarrow> r(Status := SText status, Error_message := opt_text error_message)
             | Some b \<Rightarrow> r(Status := SText status, Error_message := opt_text error_message,
                           Metadata_collected := bool_int b)) tbl"

text \<open>
  \<^verbatim>\<open>fix_inconsistent_states\<close>: two updates in one transaction; the result carries the
  two row counts (\<^verbatim>\<open>pending_with_metadata\<close>, \<^verbatim>\<open>completed_without_metadata\<close>).
\<close>

definition pending_with_metadata :: "row \<Rightarrow> bool" where
  "pending_with_metadata r \<longleftrightarrow> r Status = SText ''pending'' \<and> r Metadata_collected = SInt 1"

definition completed_without_metadata :: "row \<Rightarrow> bool" where
  "completed_without_metadata r \<longleftrightarrow>
     r Status = SText ''completed'' \<and> r Metadata_collected = SInt 0"

definition fix_inconsistent_states :: "table \<Rightarrow> (nat \<times> nat) \<times> table" where
  "fix_inconsistent_states tbl =
     (let n1 = rowcount pending_with_metadata tbl;
          t1 = sql_update pending_with_metadata (\<lambda>r. r(Metadata_collected := SInt 0)) tbl;
          n2 = rowcount completed_without_metadata t1;
          t2 = sql_update completed_without_metadata (\<lambda>r. r(Status := SText ''pending'')) t1
      in ((n1, n2), t2))"

section \<open>Orchestrator: the interleaving of the work list (\<^verbatim>\<open>scanner.py\<close>)\<close>

text \<open>
  \<^verbatim>\<open>_interleave_with_random\<close>. The set \<^verbatim>\<open>remaining\<close> is kept as a list without
  repetitions; \<^verbatim>\<open>random.choice(list(remaining))\<close> takes the element at the position the
  \<open>k\<close>-th draw of the oracle \<open>rnd\<close> names, so every element of the set can be chosen.
  The inner loop that steps over consumed items is \<open>skip_used\<close>.
\<close>

function skip_used :: "'a list \<Rightarrow> 'a list \<Rightarrow> nat \<Rightarrow> nat" where
  "skip_used ordered_list remaining ordered_idx =
     (if ordered_idx < length ordered_list \<and> ordered_list ! ordered_idx \<notin> set remaining
      then skip_used ordered_list remaining (ordered_idx + 1)
      else ordered_idx)"
  by pat_completeness auto
termination
  by (relation "measure (\<lambda>(ordered_list, remaining, ordered_idx). length ordered_list - ordered_idx)")
     auto

declare skip_used.simps [simp del]

text \<open>The first half of a round: the next item of the ordered list that is still remaining.\<close>

definition priority_pick :: "'a list \<Rightarrow> 'a list \<times> 'a list \<times> nat \<Rightarrow> 'a list \<times> 'a list \<times> nat" where
  "priority_pick ordered_list st =
     (case st of (result, remaining, ordered_idx) \<Rightarrow>
        if ordered_idx < length ordered_list \<and> ordered_list ! ordered_idx \<in> set remaining
        then (let sub = ordered_list ! ordered_idx
              in (result @ [sub], removeAll sub remaining, ordered_idx + 1))
        else (let i = skip_used ordered_list remaining ordered_idx
              in if i < length ordered_list
                 then (let sub = ordered_list ! i
                       in (result @ [sub], removeAll sub remaining, i + 1))
                 else (result, remaining, i)))"

function interleave_loop ::
  "(nat \<Rightarrow> nat) \<Rightarrow> nat \<Rightarrow> 'a list \<Rightarrow> 'a list \<Rightarrow> 'a list \<Rightarrow> nat \<Rightarrow> 'a list" where
  "interleave_loop rnd k ordered_list result remaining ordered_idx =
     (if remaining = [] then result
      else (case priority_pick ordered_list (result, remaining, ordered_idx) of
              (result1, remaining1, idx1) \<Rightarrow>
                if remaining1 = [] then result1
                else (let random_pick = remaining1 ! (rnd k mod length remaining1)
                      in interleave_loop rnd (k + 1) ordered_list (result1 @ [random_pick])
                           (removeAll random_pick remaining1) idx1)))"
  by pat_completeness auto
termination
proof -
  have pick: "length (removeAll (r ! (n mod length r)) r) < length r" if "r \<noteq> []"
    for r :: "'a list" and n
    using that by (simp add: length_removeAll_less)
  have pick2: "length (removeAll (removeAll x r ! (n mod length (removeAll x r))) (removeAll x r))
      < length r" if "removeAll x r \<noteq> []" for r :: "'a list" and n x
    using pick[OF that, of n] length_removeAll_less_eq by (metis order_less_le_trans)
  show ?thesis
    by (relation "measure (\<lambda>(rnd, k, ordered_list, result, remaining, ordered_idx). length remaining)")
       (auto simp: priority_pick_def Let_def pick pick2 split: if_splits)
qed

declare interleave_loop.simps [simp del]

definition interleave_with_random :: "(nat \<Rightarrow> nat) \<Rightarrow> 'a list \<Rightarrow> 'a list" where
  "interleave_with_random rnd ordered_list =
     (if length ordered_list \<le> 2 then ordered_list
      else interleave_loop rnd 0 ordered_list [] (remdups ordered_list) 0)"

text \<open>
  The alternation the transform is meant to show, position by position: an even position
  holds the first item of the ordered list not among the earlier output, an odd position
  holds an item of the list not among the earlier output.
\<close>

definition alternates :: "'a list \<Rightarrow> 'a list \<Rightarrow> bool" where
  "alternates ordered_list ys \<longleftrightarrow>
     (\<forall>i < length ys.
        (even i \<longrightarrow> find (\<lambda>x. x \<notin> set (take i ys)) ordered_list = Some (ys ! i)) \<and>
        (odd i \<longrightarrow> ys ! i \<in> set ordered_list - set (take i ys)))"

section \<open>API client (\<^verbatim>\<open>reddit_client.py\<close>)\<close>

text \<open>
  JSON values as \<^verbatim>\<open>response.json()\<close> returns them; Python's \<^verbatim>\<open>None\<close> is \<open>JNull\<close>, a
  dict is the list of its items. Numbers are integers: fractional numbers are left out.
\<close>

datatype json =
    JNull | JBool bool | JInt int | JStr string | JList "json list"
  | JDict "(string \<times> json) list"

fun truthy :: "json \<Rightarrow> bool" where
  "truthy JNull = False"
| "truthy (JBool b) = b"
| "truthy (JInt n) = (n \<noteq> 0)"
| "truthy (JStr s) = (s \<noteq> [])"
| "truthy (JList js) = (js \<noteq> [])"
| "truthy (JDict kvs) = (kvs \<noteq> [])"

text \<open>\<^verbatim>\<open>d.get(key, default)\<close> and \<^verbatim>\<open>d.get(key)\<close>, whose default is \<^verbatim>\<open>None\<close>.\<close>

definition dict_get :: "(string \<times> json) list \<Rightarrow> string \<Rightarrow> json \<Rightarrow> json" where
  "dict_get d key dflt = (case map_of d key of None \<Rightarrow> dflt | Some v \<Rightarrow> v)"

text \<open>
  The world outside the process is a set of oracles, each asked in order: what the
  \<open>n\<close>-th pass through limiter, delay and \<^verbatim>\<open>client.request\<close> gives, what the \<open>n\<close>-th
  token request gives, the readings of the wall clock and the random draws. The header
  \<^verbatim>\<open>Retry-After\<close> is absent, the text of an integer, or any other text (on which
  \<^verbatim>\<open>int(...)\<close> raises). A response body that is not JSON is \<open>None\<close>.
\<close>

datatype retry_after_header = No_header | Int_text int | Other_text

record response =
  status_code :: int
  retry_after :: retry_after_header
  body :: "json option"

datatype attempt = Limiter_error | Transport_error | Got response

datatype auth_outcome =
    Auth_ok string "int option" | Auth_bad_expiry string | Auth_status int | Auth_error

datatype exn = HTTPStatusError int | Exception

record world =
  http :: "nat \<Rightarrow> attempt"
  auth :: "nat \<Rightarrow> auth_outcome"
  wall :: "nat \<Rightarrow> real"
  rand :: "nat \<Rightarrow> real"
  choice :: "nat \<Rightarrow> nat"
  epoch :: "nat \<Rightarrow> int"
  html_unescape :: "string \<Rightarrow> string"
  str_of_exn :: "exn \<Rightarrow> string"

text \<open>
  What the client does to the outside, in order: the attempts it makes (with what came
  back), the sleeps it takes and the token requests it posts. The log and the four
  counters of oracle questions are bookkeeping of the model; the other fields are the
  attributes of \<^verbatim>\<open>RedditAPIClient\<close> (\<open>api_total_requests\<close> is its \<^verbatim>\<open>total_requests\<close>).
\<close>

datatype event = Attempted attempt | Slept real | Auth_posted

record client =
  token :: "string option"
  token_expires :: "real option"
  api_total_requests :: nat
  failed_requests :: nat
  rate_limit_hits :: nat
  diversity_requests :: nat
  min_delay :: real
  max_delay :: real
  request_diversity :: bool
  http_calls :: nat
  auth_calls :: nat
  wall_reads :: nat
  rand_draws :: nat
  events :: "event list"

definition draw :: "world \<Rightarrow> client \<Rightarrow> real \<times> client" where
  "draw w c = (rand w (rand_draws c), c\<lparr>rand_draws := rand_draws c + 1\<rparr>)"

definition read_wall :: "world \<Rightarrow> client \<Rightarrow> real \<times> client" where
  "read_wall w c = (wall w (wall_reads c), c\<lparr>wall_reads := wall_reads c + 1\<rparr>)"

definition sleep :: "real \<Rightarrow> client \<Rightarrow> client" where
  "sleep d c = c\<lparr>events := events c @ [Slept d]\<rparr>"

text \<open>
  \<^verbatim>\<open>_authenticate\<close>: a failed token request raises what it raised (the \<^verbatim>\<open>except\<close> clause
  logs and re-raises): \<^verbatim>\<open>HTTPStatusError\<close> from \<^verbatim>\<open>raise_for_status\<close>, or another exception
  before the token is stored, or one after it when \<^verbatim>\<open>expires_in\<close> is no number. A granted
  one stores the token and its expiry, 60 seconds early (3600 seconds when none is given).
\<close>

definition authenticate :: "world \<Rightarrow> client \<Rightarrow> (exn + unit) \<times> client" where
  "authenticate w c =
     (let c1 = c\<lparr>auth_calls := auth_calls c + 1, events := events c @ [Auth_posted]\<rparr>
      in case auth w (auth_calls c) of
           Auth_status s \<Rightarrow> (Inl (HTTPStatusError s), c1)
         | Auth_error \<Rightarrow> (Inl Exception, c1)
         | Auth_bad_expiry tok \<Rightarrow> (Inl Exception, c1\<lparr>token := Some tok\<rparr>)
         | Auth_ok tok expires_in \<Rightarrow>
             (let (now, c2) = read_wall w (c1\<lparr>token := Some tok\<rparr>);
                  secs = (case expires_in of None \<Rightarrow> 3600 | Some e \<Rightarrow> e)
              in (Inr (), c2\<lparr>token_expires := Some (now + (real_of_int secs - 60))\<rparr>)))"

definition ensure_token_valid :: "world \<Rightarrow> client \<Rightarrow> (exn + unit) \<times> client" where
  "ensure_token_valid w c =
     (case (token c, token_expires c) of
        (Some (t # ts), Some expires) \<Rightarrow>
          (let (now, c1) = read_wall w c
           in if now \<ge> expires then authenticate w c1 else (Inr (), c1))
      | _ \<Rightarrow> authenticate w c)"

text \<open>\<^verbatim>\<open>_random_delay\<close>: \<^verbatim>\<open>random.uniform(min_delay, max_delay)\<close>, then sleep.\<close>

definition random_delay :: "world \<Rightarrow> client \<Rightarrow> client" where
  "random_delay w c =
     (let (u, c1) = draw w c in sleep (min_delay c1 + (max_delay c1 - min_delay c1) * u) c1)"

text \<open>
  \<^verbatim>\<open>ExponentialBackoff\<close> with its defaults (base 1, cap 60, factor 2, jitter on); the
  state is \<^verbatim>\<open>current_attempt\<close>. \<^verbatim>\<open>wait\<close> sleeps the delay and counts the attempt.
\<close>

definition get_delay :: "real \<Rightarrow> nat \<Rightarrow> real" where
  "get_delay u current_attempt = min (1 * 2 ^ current_attempt) 60 * (0.75 + (1.25 - 0.75) * u)"

definition backoff_wait :: "world \<Rightarrow> nat \<Rightarrow> client \<Rightarrow> nat \<times> client" where
  "backoff_wait w current_attempt c =
     (let (u, c1) = draw w c
      in (current_attempt + 1, sleep (get_delay u current_attempt) c1))"

text \<open>
  \<^verbatim>\<open>raise_for_status\<close> is the library's: it raises \<^verbatim>\<open>HTTPStatusError\<close> for every status
  that is not a success (200 to 299).
\<close>

definition is_success :: "int \<Rightarrow> bool" where
  "is_success s \<longleftrightarrow> 200 \<le> s \<and> s \<le> 299"

definition retry_seconds :: "retry_after_header \<Rightarrow> int option" where
  "retry_seconds h = (case h of No_header \<Rightarrow> Some 60 | Int_text n \<Rightarrow> Some n | Other_text \<Rightarrow> None)"

datatype step = Return json | Continue

text \<open>
  The \<^verbatim>\<open>try\<close> block of one round of \<^verbatim>\<open>_make_request\<close>: limiter, delay, request, then
  the status checks in the order of the source. \<open>Inl\<close> is an exception raised inside
  the block.
\<close>

definition try_request :: "world \<Rightarrow> client \<Rightarrow> (exn + step) \<times> client" where
  "try_request w c =
     (let a = http w (http_calls c);
          c0 = c\<lparr>http_calls := http_calls c + 1\<rparr>
      in case a of
           Limiter_error \<Rightarrow> (Inl Exception, c0\<lparr>events := events c0 @ [Attempted a]\<rparr>)
         | Transport_error \<Rightarrow>
             (let c1 = random_delay w c0
              in (Inl Exception, c1\<lparr>events := events c1 @ [Attempted a]\<rparr>))
         | Got r \<Rightarrow>
             (let c1 = random_delay w c0;
                  c2 = c1\<lparr>events := events c1 @ [Attempted a],
                         api_total_requests := api_total_requests c1 + 1\<rparr>
              in if status_code r = 429 then
                   (case retry_seconds (retry_after r) of
                      None \<Rightarrow> (Inl Exception, c2)
                    | Some secs \<Rightarrow>
                        (Inr Continue,
                         sleep (real_of_int secs) (c2\<lparr>rate_limit_hits := rate_limit_hits c2 + 1\<rparr>)))
                 else if status_code r = 401 then
                   (case authenticate w (c2\<lparr>token := None\<rparr>) of
                      (Inl e, c3) \<Rightarrow> (Inl e, c3)
                    | (Inr u, c3) \<Rightarrow> (Inr Continue, c3))
                 else if status_code r = 302 then (Inr (Return JNull), c2)
                 else if \<not> is_success (status_code r) then (Inl (HTTPStatusError (status_code r)), c2)
                 else (case body r of
                         None \<Rightarrow> (Inl Exception, c2)
                       | Some j \<Rightarrow> (Inr (Return j), c2))))"

definition status_marker :: "int \<Rightarrow> json" where
  "status_marker s = JDict [(''_http_status'', JInt s)]"

text \<open>
  The \<^verbatim>\<open>for attempt in range(max_retries)\<close> loop with its two \<^verbatim>\<open>except\<close> clauses. The
  first argument counts the rounds still to run, this one included, so
  \<^verbatim>\<open>attempt < max_retries - 1\<close> reads \<open>0 < n\<close> below; the loop left without a return gives
  \<^verbatim>\<open>None\<close>.
\<close>

fun request_loop :: "world \<Rightarrow> nat \<Rightarrow> nat \<Rightarrow> client \<Rightarrow> json \<times> client" where
  "request_loop w 0 backoff c = (JNull, c)"
| "request_loop w (Suc n) backoff c =
     (case try_request w c of
        (Inr (Return j), c1) \<Rightarrow> (j, c1)
      | (Inr Continue, c1) \<Rightarrow> request_loop w n backoff c1
      | (Inl (HTTPStatusError status), c1) \<Rightarrow>
          (let c2 = c1\<lparr>failed_requests := failed_requests c1 + 1\<rparr>
           in if status = 404 then (status_marker 404, c2)
              else if status = 403 then (status_marker 403, c2)
              else if status \<ge> 500 then
                (let (backoff', c3) = backoff_wait w backoff c2 in request_loop w n backoff' c3)
              else (JNull, c2))
      | (Inl Exception, c1) \<Rightarrow>
          (let c2 = c1\<lparr>failed_requests := failed_requests c1 + 1\<rparr>
           in if 0 < n then
                (let (backoff', c3) = backoff_wait w backoff c2 in request_loop w n backoff' c3)
              else (JNull, c2)))"

text \<open>
  \<^verbatim>\<open>_make_request\<close>: the token check stands before the \<^verbatim>\<open>try\<close>, so what it raises
  leaves the function. A negative \<^verbatim>\<open>max_retries\<close> runs no round, as 0 does.
\<close>

definition make_request :: "world \<Rightarrow> nat \<Rightarrow> client \<Rightarrow> (exn + json) \<times> client" where
  "make_request w max_retries c =
     (case ensure_token_valid w c of
        (Inl e, c1) \<Rightarrow> (Inl e, c1)
      | (Inr u, c1) \<Rightarrow> (let (j, c2) = request_loop w max_retries 0 c1 in (Inr j, c2)))"

text \<open>
  \<^verbatim>\<open>_make_diversity_request\<close>: one draw decides, one more chooses the endpoint; whatever
  the request raises is swallowed.
\<close>

definition make_diversity_request :: "world \<Rightarrow> client \<Rightarrow> client" where
  "make_diversity_request w c =
     (if \<not> request_diversity c then c
      else (let (u, c1) = draw w c
            in if u > 0.2 then c1
               else (let (e, c2) = draw w c1
                     in case make_request w 1 c2 of
                          (Inl x, c3) \<Rightarrow> c3
                        | (Inr j, c3) \<Rightarrow> c3\<lparr>diversity_requests := diversity_requests c3 + 1\<rparr>)))"

text \<open>
  What \<^verbatim>\<open>get_subreddit_info\<close> makes of the data, inside its \<^verbatim>\<open>try\<close>. On a value that
  is not a dict, \<^verbatim>\<open>'data' in data\<close> or \<^verbatim>\<open>data['data']\<close> raises where Python raises;
  \<^verbatim>\<open>.get\<close> on a payload that is not a dict raises as well.
\<close>

type_synonym metadata = "(string \<times> json) list"

definition classify_payload :: "json \<Rightarrow> exn + (metadata option \<times> string)" where
  "classify_payload subreddit_data =
     (case subreddit_data of
        JDict md \<Rightarrow>
          if truthy (dict_get md ''quarantine'' (JBool False)) then Inr (Some md, ''quarantined'')
          else if dict_get md ''subreddit_type'' (JStr ''public'') = JStr ''private''
               then Inr (Some md, ''private'')
               else Inr (Some md, ''active'')
      | _ \<Rightarrow> Inl Exception)"

definition classify :: "json \<Rightarrow> exn + (metadata option \<times> string)" where
  "classify data =
     (case data of
        JNull \<Rightarrow> Inr (None, ''error'')
      | JDict kvs \<Rightarrow>
          if map_of kvs ''_http_status'' = Some (JInt 404) then Inr (None, ''notfound'')
          else if map_of kvs ''_http_status'' = Some (JInt 403) then Inr (None, ''deleted'')
          else (case map_of kvs ''data'' of
                  Some subreddit_data \<Rightarrow> classify_payload subreddit_data
                | None \<Rightarrow> Inr (None, ''error''))
      | JList js \<Rightarrow> if JStr ''data'' \<in> set js then Inl Exception else Inr (None, ''error'')
      | JStr s \<Rightarrow> if sublist ''data'' s then Inl Exception else Inr (None, ''error'')
      | JInt n \<Rightarrow> if n \<noteq> 0 then Inl Exception else Inr (None, ''error'')
      | JBool b \<Rightarrow> if b then Inl Exception else Inr (None, ''error''))"

text \<open>The \<^verbatim>\<open>try\<close> block of \<^verbatim>\<open>get_subreddit_info\<close>: the request with three rounds.\<close>

definition fetch_about :: "world \<Rightarrow> string \<Rightarrow> client \<Rightarrow> (exn + (metadata option \<times> string)) \<times> client" where
  "fetch_about w subreddit c =
     (case make_request w 3 c of
        (Inl e, c1) \<Rightarrow> (Inl e, c1)
      | (Inr data, c1) \<Rightarrow> (classify data, c1))"

text \<open>
  \<^verbatim>\<open>get_subreddit_info\<close>: the diversity request, then the \<^verbatim>\<open>try\<close> block under
  \<^verbatim>\<open>except Exception\<close>. The result is a sum so that "does not raise" is a statement
  about the function and not about its type.
\<close>

definition get_subreddit_info ::
  "world \<Rightarrow> string \<Rightarrow> client \<Rightarrow> (exn + (metadata option \<times> string)) \<times> client" where
  "get_subreddit_info w subreddit c =
     (case fetch_about w subreddit (make_diversity_request w c) of
        (Inl e, c1) \<Rightarrow> (Inr (None, ''error''), c1)
      | (Inr r, c1) \<Rightarrow> (Inr r, c1))"

text \<open>
  Reading the log. \<open>hit\<close> gives the seconds of a 429 response whose \<^verbatim>\<open>Retry-After\<close> the
  client could use (60 when the header is absent); \<open>sleeps_after_429\<close> says that every
  such response is followed at once by a sleep of that length; \<open>new_events\<close> is what a
  call added to the log; \<open>paced n\<close> collects what the claims need of a call that may run
  \<open>n\<close> rounds.
\<close>

definition hit :: "event \<Rightarrow> int option" where
  "hit e = (case e of
              Attempted (Got r) \<Rightarrow> if status_code r = 429 then retry_seconds (retry_after r) else None
            | _ \<Rightarrow> None)"

definition is_attempt :: "event \<Rightarrow> bool" where
  "is_attempt e = (case e of Attempted a \<Rightarrow> True | _ \<Rightarrow> False)"

definition sleeps_after_429 :: "event list \<Rightarrow> bool" where
  "sleeps_after_429 es \<longleftrightarrow>
     (\<forall>i<length es. \<forall>secs. hit (es ! i) = Some secs \<longrightarrow>
        Suc i < length es \<and> es ! Suc i = Slept (real_of_int secs))"

definition new_events :: "client \<Rightarrow> client \<Rightarrow> event list" where
  "new_events c c' = drop (length (events c)) (events c')"

definition paced :: "nat \<Rightarrow> client \<Rightarrow> client \<Rightarrow> bool" where
  "paced n c c' \<longleftrightarrow>
     (\<exists>es. events c' = events c @ es
        \<and> length (filter is_attempt es) \<le> n
        \<and> rate_limit_hits c' = rate_limit_hits c + length (filter (\<lambda>e. hit e \<noteq> None) es)
        \<and> sleeps_after_429 es)"

text \<open>An attempt that the request loop retries: no response, or a server error.\<close>

definition failing :: "attempt \<Rightarrow> bool" where
  "failing a = (case a of Got r \<Rightarrow> status_code r \<ge> 500 | _ \<Rightarrow> True)"

text \<open>
  A client whose token is set and expires after the wall reading 0, the only reading of
  the worlds below: \<^verbatim>\<open>_ensure_token_valid\<close> does not ask for a new one.
\<close>

definition valid_token :: "client \<Rightarrow> bool" where
  "valid_token c =
     (case (token c, token_expires c) of (Some (t # ts), Some e) \<Rightarrow> 0 < e | _ \<Rightarrow> False)"

text \<open>
  Concrete inputs: a client with a valid token and the configured delays, and worlds in
  which the token requests succeed, the draws are all one half (so no diversity request is
  made) and the responses are as named.
\<close>

definition fresh_client :: client where
  "fresh_client = \<lparr>token = Some ''t'', token_expires = Some 3540, api_total_requests = 0,
     failed_requests = 0, rate_limit_hits = 0, diversity_requests = 0, min_delay = 1.5,
     max_delay = 3, request_diversity = True, http_calls = 0, auth_calls = 0, wall_reads = 0,
     rand_draws = 0, events = []\<rparr>"

definition quiet_world :: "(nat \<Rightarrow> attempt) \<Rightarrow> world" where
  "quiet_world responses = \<lparr>http = responses, auth = (\<lambda>n. Auth_ok ''t'' (Some 3600)),
     wall = (\<lambda>n. 0), rand = (\<lambda>n. 1/2), choice = (\<lambda>n. 0), epoch = (\<lambda>n. 0),
     html_unescape = (\<lambda>s. s), str_of_exn = (\<lambda>e. ''error'')\<rparr>"

definition reply :: "int \<Rightarrow> attempt" where
  "reply s = Got \<lparr>status_code = s, retry_after = No_header, body = None\<rparr>"

definition limited :: "int \<Rightarrow> attempt" where
  "limited secs = Got \<lparr>status_code = 429, retry_after = Int_text secs, body = None\<rparr>"

definition about_ok :: attempt where
  "about_ok = Got \<lparr>status_code = 200, retry_after = No_header,
      body = Some (JDict [(''data'', JDict [(''subscribers'', JInt 5000)])])\<rparr>"

definition redirect_world :: world where
  "redirect_world = quiet_world (\<lambda>n. reply 302)"

definition notfound_world :: world where
  "notfound_world = quiet_world (\<lambda>n. reply 404)"

definition forbidden_world :: world where
  "forbidden_world = quiet_world (\<lambda>n. reply 403)"

definition throttled_world :: world where
  "throttled_world = quiet_world (\<lambda>n. if n < 3 then limited 5 else about_ok)"

definition dead_world :: world where
  "dead_world = quiet_world (\<lambda>n. Transport_error)"

definition active_world :: world where
  "active_world = quiet_world (\<lambda>n. about_ok)"

definition about_small :: attempt where
  "about_small = Got \<lparr>status_code = 200, retry_after = No_header,
      body = Some (JDict [(''data'', JDict [(''subscribers'', JInt 50)])])\<rparr>"

definition small_world :: world where
  "small_world = quiet_world (\<lambda>n. about_small)"

section \<open>Store, continued: writing the metadata\<close>

text \<open>
  How a JSON value is bound to a statement parameter: lists and dicts are not supported
  and integers must fit 64 bits, otherwise the binding raises. \<^verbatim>\<open>_decode_html_entities\<close>
  hands a falsy value back as it is and gives the rest to \<^verbatim>\<open>html.unescape\<close>, the
  library's, taken from the world; on a truthy value that is no string either that call or
  the binding raises. \<open>None\<close> stands for "raises".
\<close>

definition bind :: "json \<Rightarrow> sqlval option" where
  "bind j =
     (case j of
        JNull \<Rightarrow> Some SNull
      | JBool b \<Rightarrow> Some (bool_int b)
      | JInt n \<Rightarrow> if - (2 ^ 63) \<le> n \<and> n < 2 ^ 63 then Some (SInt n) else None
      | JStr s \<Rightarrow> Some (SText s)
      | JList js \<Rightarrow> None
      | JDict kvs \<Rightarrow> None)"

definition decode_html_entities :: "(string \<Rightarrow> string) \<Rightarrow> json \<Rightarrow> sqlval option" where
  "decode_html_entities unescape text =
     (if \<not> truthy text then bind text
      else (case text of JStr s \<Rightarrow> Some (SText (unescape s)) | _ \<Rightarrow> None))"

definition set_columns :: "(column \<times> sqlval) list \<Rightarrow> row \<Rightarrow> row" where
  "set_columns cvs r = fold (\<lambda>(c, v) r'. r'(c := v)) cvs r"

text \<open>
  \<^verbatim>\<open>update_subreddit_metadata\<close>: the parameters are computed first; if one of them
  raises, the \<^verbatim>\<open>except\<close> clause returns \<^verbatim>\<open>False\<close> and the table is as before. \<open>now\<close> is
  \<^verbatim>\<open>int(time.time())\<close>.
\<close>

definition metadata_params ::
  "(string \<Rightarrow> string) \<Rightarrow> int \<Rightarrow> metadata \<Rightarrow> (column \<times> sqlval option) list" where
  "metadata_params unescape now metadata =
     [(Title, bind (dict_get metadata ''title'' JNull)),
      (Description, decode_html_entities unescape (dict_get metadata ''public_description'' JNull)),
      (Subscribers, bind (dict_get metadata ''subscribers'' JNull)),
      (Active_users, bind (dict_get metadata ''active_user_count'' JNull)),
      (Over_18, bind (dict_get metadata ''over18'' (JBool False))),
      (Status, Some (SText ''active'')),
      (Is_accessible, Some (SInt 1)),
      (Subreddit_type, bind (dict_get metadata ''subreddit_type'' JNull)),
      (Created_utc, bind (dict_get metadata ''created_utc'' JNull)),
      (Last_updated, Some (SInt now)),
      (Icon_url, decode_html_entities unescape (dict_get metadata ''community_icon'' JNull)),
      (Primary_color, bind (dict_get metadata ''primary_color'' JNull)),
      (Advertiser_category, bind (dict_get metadata ''advertiser_category'' JNull)),
      (Submission_type, bind (dict_get metadata ''submission_type'' JNull)),
      (Allow_images, bind (dict_get metadata ''allow_images'' (JBool True))),
      (Allow_videos, bind (dict_get metadata ''allow_videos'' (JBool True))),
      (Allow_galleries, bind (dict_get metadata ''allow_galleries'' (JBool False))),
      (Allow_videogifs, bind (dict_get metadata ''allow_videogifs'' (JBool False))),
      (Allow_polls, bind (dict_get metadata ''allow_polls'' (JBool False))),
      (Link_flair_enabled, bind (dict_get metadata ''link_flair_enabled'' (JBool False))),
      (Spoilers_enabled, bind (dict_get metadata ''spoilers_enabled'' (JBool False))),
      (Whitelist_status, bind (dict_get metadata ''wls'' JNull)),
      (Language, bind (dict_get metadata ''lang'' (JStr ''en''))),
      (Error_message, Some SNull)]"

definition update_subreddit_metadata ::
  "(string \<Rightarrow> string) \<Rightarrow> int \<Rightarrow> string \<Rightarrow> metadata \<Rightarrow> table \<Rightarrow> bool \<times> table" where
  "update_subreddit_metadata unescape now name metadata tbl =
     (let params = metadata_params unescape now metadata
      in case those (map snd params) of
           None \<Rightarrow> (False, tbl)
         | Some vs \<Rightarrow>
             (True, sql_update (name_is (lower name)) (set_columns (zip (map fst params) vs)) tbl))"

text \<open>
  \<^verbatim>\<open>get_subreddits_for_update\<close>: the rows with metadata collected, status
  \<^verbatim>\<open>active\<close> and no or an old \<^verbatim>\<open>last_updated\<close>; never updated rows first by falling
  subscribers, then the stale ones by rising \<^verbatim>\<open>last_updated\<close> and falling subscribers. The
  order is written for cells that are integers or NULL, which is what the scanner stores
  there; rows that tie keep their table order.
\<close>

definition int_cell :: "sqlval \<Rightarrow> int option" where
  "int_cell v = (case v of SInt n \<Rightarrow> Some n | _ \<Rightarrow> None)"

definition needs_update :: "int \<Rightarrow> bool \<Rightarrow> row \<Rightarrow> bool" where
  "needs_update stale_cutoff nsfw r \<longleftrightarrow>
     r Metadata_collected = SInt 1 \<and> r Status = SText ''active''
     \<and> (case r Last_updated of
           SNull \<Rightarrow> True
         | SInt t \<Rightarrow> t < stale_cutoff
         | SText s \<Rightarrow> False)
     \<and> (if nsfw then r Over_18 = SInt 1 else True)"

definition update_order :: "row \<Rightarrow> (int \<times> int) \<times> (int \<times> int)" where
  "update_order r =
     (let subs = int_cell (r Subscribers)
      in (case int_cell (r Last_updated) of
            None \<Rightarrow> (0, - (case subs of None \<Rightarrow> 0 | Some n \<Rightarrow> n))
          | Some t \<Rightarrow> (1, t),
          case subs of None \<Rightarrow> (1, 0) | Some n \<Rightarrow> (0, - n)))"

definition row_name :: "row \<Rightarrow> string" where
  "row_name r = (case r Name of SText k \<Rightarrow> k | _ \<Rightarrow> [])"

definition get_subreddits_for_update :: "nat option \<Rightarrow> int \<Rightarrow> bool \<Rightarrow> table \<Rightarrow> string list" where
  "get_subreddits_for_update limit now nsfw tbl =
     (let stale_cutoff = now - 30 * 24 * 60 * 60;
          rows = sort_key update_order (filter (needs_update stale_cutoff nsfw) tbl);
          names = map row_name rows
      in case limit of
           None \<Rightarrow> names
         | Some n \<Rightarrow> if n = 0 then names else take n names)"

section \<open>Orchestrator: one item in refresh mode (\<^verbatim>\<open>scanner.py\<close>)\<close>

text \<open>
  The scanner's state: the Store, the client, the counters and flags of
  \<^verbatim>\<open>SubredditScanner\<close>. The two thresholds come from the configuration. Logging, progress
  reports and the pacing sleeps of the loops are left out; no signal arrives, so
  \<^verbatim>\<open>shutdown_requested\<close> is set by the loops only.
\<close>

record config =
  max_consecutive_403 :: nat
  max_total_429 :: nat

record scanner =
  db :: table
  reddit_client :: client
  consecutive_403s :: nat
  total_429s :: nat
  subreddits_processed :: nat
  subreddits_failed :: nat
  shutdown_requested :: bool
  running :: bool
  recent_successes :: "bool list"
  limit :: "nat option"
  nsfw_only :: bool

definition track_success :: "scanner \<Rightarrow> scanner" where
  "track_success S =
     (let rs = recent_successes S @ [True]
      in S\<lparr>recent_successes := (if length rs > 10 then tl rs else rs)\<rparr>)"

definition check_error_thresholds :: "config \<Rightarrow> scanner \<Rightarrow> bool \<times> scanner" where
  "check_error_thresholds cfg S =
     (let S' = S\<lparr>total_429s := rate_limit_hits (reddit_client S)\<rparr>
      in if consecutive_403s S' \<ge> max_consecutive_403 cfg then (True, S')
         else if total_429s S' \<ge> max_total_429 cfg then (True, S')
         else (False, S'))"

definition is_user_profile :: "metadata option \<Rightarrow> bool" where
  "is_user_profile metadata =
     (case metadata of
        None \<Rightarrow> False
      | Some md \<Rightarrow> md \<noteq> [] \<and> dict_get md ''subreddit_type'' JNull = JStr ''user'')"

definition delete_row :: "string \<Rightarrow> scanner \<Rightarrow> scanner" where
  "delete_row subreddit S = S\<lparr>db := sql_delete (name_is subreddit) (db S)\<rparr>"

definition set_retry_count :: "int \<Rightarrow> string \<Rightarrow> scanner \<Rightarrow> scanner" where
  "set_retry_count n subreddit S =
     S\<lparr>db := sql_update (name_is subreddit) (\<lambda>r. r(Retry_count := SInt n)) (db S)\<rparr>"

text \<open>
  \<^verbatim>\<open>metadata.get('subscribers', 0) or 0\<close>, and whether the format \<^verbatim>\<open>{subscribers:>12,}\<close>
  of the log line accepts it: a number does, text or a container raises.
\<close>

definition subscribers_of :: "metadata \<Rightarrow> json" where
  "subscribers_of md =
     (let v = dict_get md ''subscribers'' (JInt 0) in if truthy v then v else JInt 0)"

definition formats_with_commas :: "json \<Rightarrow> bool" where
  "formats_with_commas j = (case j of JInt n \<Rightarrow> True | JBool b \<Rightarrow> True | _ \<Rightarrow> False)"

text \<open>
  The branches of \<^verbatim>\<open>process_subreddit\<close>. A branch gives \<open>Inr\<close> of the value returned and
  the state, or \<open>Inl\<close> of an exception with the state reached when it was raised.
\<close>

definition handle_active ::
  "world \<Rightarrow> int \<Rightarrow> string \<Rightarrow> metadata \<Rightarrow> scanner \<Rightarrow> exn \<times> scanner + bool \<times> scanner" where
  "handle_active w now subreddit md S =
     (let S1 = S\<lparr>consecutive_403s := 0\<rparr>;
          (ok, t1) = update_subreddit_metadata (html_unescape w) now subreddit md (db S1);
          t2 = update_subreddit subreddit ''active'' None (Some True) t1;
          S2 = set_retry_count 0 subreddit (S1\<lparr>db := t2\<rparr>);
          S3 = S2\<lparr>subreddits_processed := subreddits_processed S2 + 1\<rparr>
      in if formats_with_commas (subscribers_of md) then Inr (True, S3) else Inl (Exception, S3))"

definition handle_notfound :: "string \<Rightarrow> scanner \<Rightarrow> exn \<times> scanner + bool \<times> scanner" where
  "handle_notfound subreddit S = Inr (True, (delete_row subreddit S)\<lparr>consecutive_403s := 0\<rparr>)"

text \<open>
  The 403 branch. \<open>cell\<close> is the \<^verbatim>\<open>retry_count\<close> read before: no row or NULL counts as
  0, and adding 1 to text raises.
\<close>

definition handle_deleted :: "sqlval option \<Rightarrow> string \<Rightarrow> scanner \<Rightarrow> exn \<times> scanner + bool \<times> scanner" where
  "handle_deleted cell subreddit S =
     (let S1 = S\<lparr>consecutive_403s := consecutive_403s S + 1\<rparr>
      in case (case cell of None \<Rightarrow> Some 0 | Some SNull \<Rightarrow> Some 0 | Some (SInt n) \<Rightarrow> Some n
                | Some (SText t) \<Rightarrow> None) of
           None \<Rightarrow> Inl (Exception, S1)
         | Some n \<Rightarrow>
             (let retry_count = n + 1
              in if retry_count \<ge> 3
                 then Inr (True, (delete_row subreddit S1)\<lparr>consecutive_403s := 0\<rparr>)
                 else Inr (True, set_retry_count retry_count subreddit S1)))"

definition handle_other :: "string \<Rightarrow> string \<Rightarrow> scanner \<Rightarrow> exn \<times> scanner + bool \<times> scanner" where
  "handle_other subreddit status S =
     (let S1 = S\<lparr>consecutive_403s := 0\<rparr>;
          t1 = update_subreddit_status subreddit status None (db S1);
          t2 = update_subreddit subreddit status (Some (''Status: '' @ status)) (Some True) t1
      in Inr (True, set_retry_count 0 subreddit (S1\<lparr>db := t2\<rparr>)))"

definition handle_result ::
  "world \<Rightarrow> int \<Rightarrow> string \<Rightarrow> metadata option \<Rightarrow> string \<Rightarrow> scanner
     \<Rightarrow> exn \<times> scanner + bool \<times> scanner" where
  "handle_result w now subreddit metadata status S =
     (if is_user_profile metadata then Inr (True, delete_row subreddit S)
      else (case (if status = ''active'' then metadata else None) of
              Some (kv # kvs) \<Rightarrow> handle_active w now subreddit (kv # kvs) S
            | _ \<Rightarrow>
                (let cell = map_option (\<lambda>r. r Retry_count) (fetchone subreddit (db S))
                 in if status = ''notfound'' then handle_notfound subreddit S
                    else if status = ''deleted'' then handle_deleted cell subreddit S
                    else handle_other subreddit status S)))"

text \<open>The \<^verbatim>\<open>except\<close> clause of \<^verbatim>\<open>process_subreddit\<close>.\<close>

definition fail_item :: "world \<Rightarrow> exn \<Rightarrow> string \<Rightarrow> scanner \<Rightarrow> bool \<times> scanner" where
  "fail_item w e subreddit S =
     (False, S\<lparr>db := update_subreddit subreddit ''error'' (Some (str_of_exn w e)) None (db S),
              subreddits_failed := subreddits_failed S + 1\<rparr>)"

text \<open>
  \<^verbatim>\<open>process_subreddit\<close>: mark the row \<^verbatim>\<open>processing\<close>, fetch, act on the result. \<open>now\<close>
  is the reading of \<^verbatim>\<open>int(time.time())\<close> that a metadata update would store.
\<close>

definition process_subreddit :: "world \<Rightarrow> int \<Rightarrow> string \<Rightarrow> scanner \<Rightarrow> bool \<times> scanner" where
  "process_subreddit w now subreddit S =
     (let S0 = S\<lparr>db := update_subreddit subreddit ''processing'' None None (db S)\<rparr>
      in case get_subreddit_info w subreddit (reddit_client S0) of
           (Inl e, c) \<Rightarrow> fail_item w e subreddit (S0\<lparr>reddit_client := c\<rparr>)
         | (Inr (metadata, status), c) \<Rightarrow>
             (case handle_result w now subreddit metadata status (S0\<lparr>reddit_client := c\<rparr>) of
                Inl (e, S1) \<Rightarrow> fail_item w e subreddit S1
              | Inr res \<Rightarrow> res))"

section \<open>Orchestrator: the refresh run\<close>

text \<open>
  The loop of \<^verbatim>\<open>run\<close>: stop when shutdown is requested or a threshold is passed, before
  or after an item. Item \<open>idx\<close> stores the reading \<open>epoch w (idx + 1)\<close>; reading 0 is
  the one the work-list query takes.
\<close>

fun run_items :: "world \<Rightarrow> config \<Rightarrow> string list \<Rightarrow> nat \<Rightarrow> scanner \<Rightarrow> scanner" where
  "run_items w cfg [] idx S = S"
| "run_items w cfg (subreddit # rest) idx S =
     (if shutdown_requested S then S
      else (case check_error_thresholds cfg S of
              (True, S1) \<Rightarrow> S1\<lparr>shutdown_requested := True\<rparr>
            | (False, S1) \<Rightarrow>
                (let (ok, S2) = process_subreddit w (epoch w (idx + 1)) subreddit S1
                 in case check_error_thresholds cfg S2 of
                      (True, S3) \<Rightarrow> S3\<lparr>shutdown_requested := True\<rparr>
                    | (False, S3) \<Rightarrow> run_items w cfg rest (idx + 1) S3)))"

text \<open>
  \<^verbatim>\<open>run\<close>: repair the inconsistent states, take the work list, interleave it, process.
\<close>

definition repaired :: "scanner \<Rightarrow> scanner" where
  "repaired S = S\<lparr>running := True, db := snd (fix_inconsistent_states (db S))\<rparr>"

definition work_list :: "world \<Rightarrow> scanner \<Rightarrow> string list" where
  "work_list w S =
     interleave_with_random (choice w)
       (get_subreddits_for_update (limit S) (epoch w 0) (nsfw_only S) (db S))"

definition run :: "world \<Rightarrow> config \<Rightarrow> scanner \<Rightarrow> scanner" where
  "run w cfg S =
     (let S1 = repaired S;
          subreddits_to_process = work_list w S1;
          S2 = run_items w cfg subreddits_to_process 0 S1
      in S2\<lparr>running := False\<rparr>)"

section \<open>Orchestrator: list-file mode\<close>

text \<open>
  A row of the list file, its subscriber column read as a number, and the counters of
  \<^verbatim>\<open>run_csv_scan\<close> with the rows to write back.
\<close>

record csv_row =
  csv_subreddit :: string
  csv_subscribers :: int

record csv_progress =
  processed :: nat
  duplicates_removed :: nat
  scanned_and_saved :: nat
  errors :: nat
  rows_to_keep :: "csv_row list"

datatype flow = Next | Skip

text \<open>\<^verbatim>\<open>subscribers < 100\<close>: a number compares, text or a container raises (\<open>None\<close>).\<close>

definition below_100 :: "json \<Rightarrow> bool option" where
  "below_100 j =
     (case j of JInt n \<Rightarrow> Some (n < 100) | JBool b \<Rightarrow> Some True | _ \<Rightarrow> None)"

definition keep_after_error :: "csv_row \<Rightarrow> csv_progress \<Rightarrow> csv_progress" where
  "keep_after_error row P = P\<lparr>errors := errors P + 1, rows_to_keep := rows_to_keep P @ [row]\<rparr>"

text \<open>
  An item that is not in the Store: the \<^verbatim>\<open>try\<close> block of the loop body and its
  \<^verbatim>\<open>except\<close> clause. \<open>Skip\<close> is the \<^verbatim>\<open>continue\<close> of the source, which also passes over
  \<^verbatim>\<open>processed += 1\<close>.
\<close>

definition scan_new ::
  "world \<Rightarrow> int \<Rightarrow> csv_row \<Rightarrow> string \<Rightarrow> scanner \<Rightarrow> csv_progress
     \<Rightarrow> flow \<times> scanner \<times> csv_progress" where
  "scan_new w now row subreddit S P =
     (let S0 = S\<lparr>db := snd (add_subreddit subreddit (db S))\<rparr>
      in case get_subreddit_info w subreddit (reddit_client S0) of
           (Inl e, c) \<Rightarrow> (Next, S0\<lparr>reddit_client := c\<rparr>, keep_after_error row P)
         | (Inr (metadata, status), c) \<Rightarrow>
             (let S1 = S0\<lparr>reddit_client := c\<rparr>;
                  S2 = track_success (S1\<lparr>consecutive_403s := 0\<rparr>)
              in if is_user_profile metadata then (Skip, delete_row subreddit S1, P)
                 else (case (if status = ''active'' then metadata else None) of
                         Some (kv # kvs) \<Rightarrow>
                           (case below_100 (subscribers_of (kv # kvs)) of
                              None \<Rightarrow> (Next, S2, keep_after_error row P)
                            | Some True \<Rightarrow> (Skip, delete_row subreddit S2, P)
                            | Some False \<Rightarrow>
                                (let (ok, t1) = update_subreddit_metadata (html_unescape w) now
                                                  subreddit (kv # kvs) (db S2);
                                     t2 = update_subreddit subreddit ''active'' None (Some True) t1
                                 in (Next, S2\<lparr>db := t2\<rparr>,
                                     P\<lparr>scanned_and_saved := scanned_and_saved P + 1\<rparr>)))
                       | _ \<Rightarrow>
                           if status = ''notfound'' then (Next, delete_row subreddit S2, P)
                           else if status = ''deleted'' then (Next, delete_row subreddit S2, P)
                           else (let t1 = update_subreddit_status subreddit status None (db S2);
                                     t2 = update_subreddit subreddit status
                                            (Some (''Status: '' @ status)) (Some True) t1
                                 in (Next, S2\<lparr>db := t2\<rparr>,
                                     P\<lparr>scanned_and_saved := scanned_and_saved P + 1\<rparr>)))))"

text \<open>
  One row of the list, after the three checks that end the loop: a name found in the
  Store is a duplicate and nothing is fetched; any other name goes through \<open>scan_new\<close>.
  A row is written back only if it was put into \<^verbatim>\<open>rows_to_keep\<close>.
\<close>

definition scan_row ::
  "world \<Rightarrow> int \<Rightarrow> csv_row \<Rightarrow> scanner \<Rightarrow> csv_progress \<Rightarrow> scanner \<times> csv_progress" where
  "scan_row w now row S P =
     (let subreddit = lower (strip (csv_subreddit row))
      in case fetchone subreddit (db S) of
           Some existing \<Rightarrow>
             (S, P\<lparr>duplicates_removed := duplicates_removed P + 1, processed := processed P + 1\<rparr>)
         | None \<Rightarrow>
             (case scan_new w now row subreddit S P of
                (Skip, S1, P1) \<Rightarrow> (S1, P1)
              | (Next, S1, P1) \<Rightarrow> (S1, P1\<lparr>processed := processed P1 + 1\<rparr>)))"

fun scan_rows ::
  "world \<Rightarrow> config \<Rightarrow> nat \<Rightarrow> csv_row list \<Rightarrow> nat \<Rightarrow> scanner \<Rightarrow> csv_progress
     \<Rightarrow> scanner \<times> csv_progress" where
  "scan_rows w cfg lim_rows [] idx S P = (S, P)"
| "scan_rows w cfg lim_rows (row # rest) idx S P =
     (if shutdown_requested S then (S, P\<lparr>rows_to_keep := rows_to_keep P @ row # rest\<rparr>)
      else (case check_error_thresholds cfg S of
              (True, S1) \<Rightarrow>
                (S1\<lparr>shutdown_requested := True\<rparr>, P\<lparr>rows_to_keep := rows_to_keep P @ row # rest\<rparr>)
            | (False, S1) \<Rightarrow>
                if processed P \<ge> lim_rows
                then (S1, P\<lparr>rows_to_keep := rows_to_keep P @ row # rest\<rparr>)
                else (let (S2, P2) = scan_row w (epoch w (idx + 1)) row S1 P
                      in scan_rows w cfg lim_rows rest (idx + 1) S2 P2)))"

definition run_csv_scan :: "world \<Rightarrow> config \<Rightarrow> csv_row list \<Rightarrow> scanner \<Rightarrow> scanner \<times> csv_progress" where
  "run_csv_scan w cfg file_rows S =
     (let csv_rows = sort_key (\<lambda>r. - csv_subscribers r) (filter (\<lambda>r. csv_subreddit r \<noteq> []) file_rows);
          lim_rows = (case limit S of None \<Rightarrow> length csv_rows
                      | Some n \<Rightarrow> if n = 0 then length csv_rows else n);
          (S1, P) = scan_rows w cfg lim_rows csv_rows 0 (S\<lparr>running := True\<rparr>)
                      \<lparr>processed = 0, duplicates_removed = 0, scanned_and_saved = 0, errors = 0,
                       rows_to_keep = []\<rparr>
      in (S1\<lparr>running := False\<rparr>, P))"

text \<open>Concrete inputs for the orchestrator.\<close>

definition default_config :: config where
  "default_config = \<lparr>max_consecutive_403 = 10, max_total_429 = 3\<rparr>"

definition scanner_with :: "table \<Rightarrow> scanner" where
  "scanner_with tbl = \<lparr>db = tbl, reddit_client = fresh_client, consecutive_403s = 0,
     total_429s = 0, subreddits_processed = 0, subreddits_failed = 0,
     shutdown_requested = False, running = False, recent_successes = [], limit = None,
     nsfw_only = False\<rparr>"

definition refreshed_row :: "string \<Rightarrow> row" where
  "refreshed_row k = (inserted_row k)(Status := SText ''active'', Metadata_collected := SInt 1)"

definition no_progress :: csv_progress where
  "no_progress = \<lparr>processed = 0, duplicates_removed = 0, scanned_and_saved = 0, errors = 0,
     rows_to_keep = []\<rparr>"

definition cats_row :: csv_row where
  "cats_row = \<lparr>csv_subreddit = ''Cats'', csv_subscribers = 5000\<rparr>"

text \<open>Twelve names, as rows of a list file and as names of a work list.\<close>

definition twelve_names :: "string list" where
  "twelve_names = [''a'', ''b'', ''c'', ''d'', ''e'', ''f'', ''g'', ''h'', ''i'', ''j'', ''k'', ''l'']"

definition twelve_rows :: "csv_row list" where
  "twelve_rows = map (\<lambda>k. \<lparr>csv_subreddit = k, csv_subscribers = 5000\<rparr>) twelve_names"

text \<open>The value of one column of the row stored under a name, if there is such a row.\<close>

definition cell :: "string \<Rightarrow> column \<Rightarrow> table \<Rightarrow> sqlval option" where
  "cell k col tbl = map_option (\<lambda>r. r col) (fetchone k tbl)"


section \<open>Properties of the rate limiter\<close>

lemma pruned_refl: "pruned h clock w w"
  by (simp add: pruned_def)

lemma pruned_cleanup: "c \<in> set clock \<Longrightarrow> pruned h clock w (cleanup_window c w h)"
proof -
  assume c: "c \<in> set clock"
  have "w = takeWhile (\<lambda>t. t < c - h) w @ dropWhile (\<lambda>t. t < c - h) w" by simp
  moreover have "\<forall>x\<in>set (takeWhile (\<lambda>t. t < c - h) w). x < c - h"
    by (meson set_takeWhileD)
  ultimately show ?thesis unfolding pruned_def cleanup_window_def using c by blast
qed

lemma pruned_trans:
  assumes "pruned h clk1 w w1" "pruned h clk2 w1 w2" "set clk1 \<subseteq> set clk" "set clk2 \<subseteq> set clk"
  shows "pruned h clk w w2"
proof -
  from assms(1) obtain p1 where p1: "w = p1 @ w1" "\<forall>x\<in>set p1. \<exists>c\<in>set clk1. x < c - h"
    unfolding pruned_def by blast
  from assms(2) obtain p2 where p2: "w1 = p2 @ w2" "\<forall>x\<in>set p2. \<exists>c\<in>set clk2. x < c - h"
    unfolding pruned_def by blast
  have "w = (p1 @ p2) @ w2" using p1 p2 by simp
  moreover have "\<forall>x\<in>set (p1 @ p2). \<exists>c\<in>set clk. x < c - h"
    using p1(2) p2(2) assms(3,4) by (metis UnE set_append subsetD)
  ultimately show ?thesis unfolding pruned_def by blast
qed

lemma only_pruned_trans:
  assumes "only_pruned clk1 L L1" "only_pruned clk2 L1 L2" "set clk1 \<subseteq> set clk" "set clk2 \<subseteq> set clk"
  shows "only_pruned clk L L2"
proof -
  have a: "L2 = L\<lparr>window_60s := window_60s L2, window_10s := window_10s L2,
            window_1s := window_1s L2, requests_blocked := requests_blocked L2\<rparr>"
    using assms(1,2) unfolding only_pruned_def
    by (cases L; cases L1; cases L2) simp
  show ?thesis unfolding only_pruned_def
    using a assms pruned_trans[of _ clk1 _ _ clk2 _ clk]
    unfolding only_pruned_def by auto
qed

lemma get_wait_time_only_pruned:
  assumes "get_wait_time now c60 c10 c1 L = (r, L')"
  shows "only_pruned [now, c60, c10, c1] L L'"
proof -
  have L': "L' = L\<lparr>window_60s := cleanup_window c60 (window_60s L) 60,
                 window_10s := cleanup_window c10 (window_10s L) 10,
                 window_1s := cleanup_window c1 (window_1s L) 1\<rparr>"
    using assms by (auto simp: get_wait_time_def Let_def split: sum.splits)
  show ?thesis unfolding only_pruned_def
    by (simp add: L' pruned_cleanup)
qed

lemma note_blocked_only_pruned: "only_pruned [] L (note_blocked L)"
  by (simp add: only_pruned_def note_blocked_def pruned_refl)

lemma acquire_loop_timed_out:
  "acquire_loop (Some tmo) start clock L = Some (Returned False, L') \<Longrightarrow>
     only_pruned clock L L' \<and> requests_blocked L < requests_blocked L'"
proof (induction "Some tmo" start clock L rule: acquire_loop.induct)
  case (1 start_time now c60 c10 c1 rest L)
  obtain r L1 where g: "get_wait_time now c60 c10 c1 L = (r, L1)" by force
  from g have p1: "only_pruned [now, c60, c10, c1] L L1" by (rule get_wait_time_only_pruned)
  from "1.prems" g obtain w t rest' where r: "r = Inr w" and w: "\<not> w \<le> 0" and rest: "rest = t # rest'"
    by (auto split: sum.splits if_splits list.splits)
  have p2: "only_pruned [] L1 (note_blocked L1)" by (rule note_blocked_only_pruned)
  have p12: "only_pruned (now # c60 # c10 # c1 # rest) L (note_blocked L1)"
    by (rule only_pruned_trans[OF p1 p2]) auto
  have b: "requests_blocked L < requests_blocked (note_blocked L1)"
    using p1 by (simp add: only_pruned_def note_blocked_def)
  show ?case
  proof (cases "(t - start_time) + w > tmo")
    case True
    with "1.prems" g r w rest have "L' = note_blocked L1" by simp
    with p12 b show ?thesis by simp
  next
    case False
    with "1.prems" g r w rest
    have rec: "acquire_loop (Some tmo) start_time rest' (note_blocked L1) = Some (Returned False, L')"
      by simp
    have "only_pruned rest' (note_blocked L1) L' \<and> requests_blocked (note_blocked L1) < requests_blocked L'"
      using "1.hyps"(2)[OF g[symmetric] r w refl rest False rec] .
    then show ?thesis
      using only_pruned_trans[OF p12, of rest' L' "now # c60 # c10 # c1 # rest"] b rest by auto
  qed
qed simp_all

text \<open>
  Claim C9. A call \<^verbatim>\<open>acquire(timeout)\<close> that returns \<^verbatim>\<open>False\<close> has granted nothing:
  \<^verbatim>\<open>total_requests\<close> and \<^verbatim>\<open>total_wait_time\<close> are as before, every window is what is
  left of the old window after dropping expired timestamps from its front (so nothing was
  appended), and \<^verbatim>\<open>requests_blocked\<close> has grown. No other field changes.
\<close>

theorem acquire_timed_out_keeps_grants:
  assumes "acquire (Some tmo) clock L = Some (Returned False, L')"
  shows "total_requests L' = total_requests L
       \<and> total_wait_time L' = total_wait_time L
       \<and> only_pruned clock L L'
       \<and> requests_blocked L < requests_blocked L'"
proof -
  from assms obtain start_time rest where clock: "clock = start_time # rest"
    by (cases clock) auto
  with assms have "acquire_loop (Some tmo) start_time rest L = Some (Returned False, L')"
    by simp
  then have a: "only_pruned rest L L'" and b: "requests_blocked L < requests_blocked L'"
    using acquire_loop_timed_out by blast+
  have "only_pruned [] L' L'" by (simp add: only_pruned_def pruned_refl)
  with a have c: "only_pruned clock L L'"
    using only_pruned_trans[of rest L L' "[]" L' clock] clock by auto
  from a have "total_requests L' = total_requests L" "total_wait_time L' = total_wait_time L"
    unfolding only_pruned_def by (cases L; cases L'; simp)+
  with b c show ?thesis by simp
qed

theorem acquire_timed_out_keeps_grants_witness:
  "acquire (Some (1/2)) [100, 100, 100, 100, 100, 100] saturated_limiter
     = Some (Returned False, saturated_limiter\<lparr>window_60s := [100, 100], requests_blocked := 1\<rparr>)
   \<and> total_requests (saturated_limiter\<lparr>window_60s := [100, 100], requests_blocked := 1\<rparr>)
       = total_requests saturated_limiter
   \<and> only_pruned [100, 100, 100, 100, 100, 100] saturated_limiter
       (saturated_limiter\<lparr>window_60s := [100, 100], requests_blocked := 1\<rparr>)"
proof -
  have h: "acquire (Some (1/2)) [100, 100, 100, 100, 100, 100] saturated_limiter
       = Some (Returned False, saturated_limiter\<lparr>window_60s := [100, 100], requests_blocked := 1\<rparr>)"
    by (simp add: saturated_limiter_def default_limiter_def get_wait_time_def cleanup_window_def
          window_wait_def note_blocked_def)
  from acquire_timed_out_keeps_grants[OF h] h show ?thesis by simp
qed

text \<open>
  Claim C1, evaluated. Default capacities (two per second) and a clock that moves only
  when the limiter sleeps. Two calls at reading 100 are granted. The third finds the
  one-second window full, waits the second it computes, and looks again at reading 101:
  the two grants are now exactly one second old, the strict comparison of
  \<^verbatim>\<open>_cleanup_window\<close> keeps them, the window still counts as full, and the wait computed from
  its oldest entry is 0, which \<^verbatim>\<open>acquire\<close> takes as a free slot. The fourth and fifth
  call, still at reading 101, are granted the same way. The one-second window ends with
  five timestamps, three of them at the single instant 101.
\<close>

theorem acquire_grants_at_capacity:
  "acquire_all [[100, 100, 100, 100, 100, 100], [100, 100, 100, 100, 100, 100],
                [100, 100, 100, 100, 100, 101, 101, 101, 101, 101],
                [101, 101, 101, 101, 101, 101], [101, 101, 101, 101, 101, 101]] default_limiter
     = Some ([True, True, True, True, True],
         default_limiter\<lparr>window_60s := [100, 100, 101, 101, 101],
                          window_10s := [100, 100, 101, 101, 101],
                          window_1s := [100, 100, 101, 101, 101], total_requests := 5,
                          total_wait_time := 1, requests_blocked := 1\<rparr>)
   \<and> grants_within 1 101 [100, 100, 101, 101, 101] = 3
   \<and> requests_per_1s default_limiter = 2"
  by (simp add: default_limiter_def get_wait_time_def cleanup_window_def
          window_wait_def note_blocked_def record_grant_def grants_within_def)

text \<open>
  The boundary is the only way in: when the readings of a call strictly increase, a grant
  is made only with every window under its capacity after pruning, and the windows end
  within their capacities.
\<close>

lemma hd_dropWhile_ge: "dropWhile (\<lambda>t. t < c) w = x # xs \<Longrightarrow> c \<le> (x::real)"
  using hd_dropWhile[of "\<lambda>t. t < c" w] by force

lemma window_wait_pos:
  assumes "now < c" "window_wait now (cleanup_window c w h) cap h = Inr ws"
  shows "ws = [] \<and> int (length (cleanup_window c w h)) < cap \<or> (\<exists>x. ws = [x] \<and> 0 < x)"
  using assms hd_dropWhile_ge[of "c - h" w]
  by (auto simp: window_wait_def cleanup_window_def split: if_splits list.splits)

lemma max_list_pos: "\<exists>x\<in>set ws. 0 < x \<Longrightarrow> 0 < max_list ws"
  by (induction ws rule: max_list.induct) (auto simp: less_max_iff_disj)

lemma get_wait_time_strict:
  assumes "now < c60" "now < c10" "now < c1"
    and "get_wait_time now c60 c10 c1 L = (Inr wt, L')" "wt \<le> 0"
  shows "int (length (window_60s L')) < requests_per_minute L
       \<and> int (length (window_10s L')) < requests_per_10s L
       \<and> int (length (window_1s L')) < requests_per_1s L"
proof -
  let ?w60 = "cleanup_window c60 (window_60s L) 60"
  let ?w10 = "cleanup_window c10 (window_10s L) 10"
  let ?w1 = "cleanup_window c1 (window_1s L) 1"
  from assms(4) obtain a b c where
    a: "window_wait now ?w60 (requests_per_minute L) 60 = Inr a" and
    b: "window_wait now ?w10 (requests_per_10s L) 10 = Inr b" and
    c: "window_wait now ?w1 (requests_per_1s L) 1 = Inr c" and
    wt: "wt = max_list (a @ b @ c)" and
    L': "L' = L\<lparr>window_60s := ?w60, window_10s := ?w10, window_1s := ?w1\<rparr>"
    by (auto simp: get_wait_time_def Let_def split: sum.splits)
  have "\<not> (\<exists>x\<in>set (a @ b @ c). 0 < x)"
    using max_list_pos[of "a @ b @ c"] wt assms(5) by auto
  then have n: "\<not> (\<exists>x. a = [x] \<and> 0 < x)" "\<not> (\<exists>x. b = [x] \<and> 0 < x)" "\<not> (\<exists>x. c = [x] \<and> 0 < x)"
    by auto
  show ?thesis
    using window_wait_pos[OF assms(1) a] window_wait_pos[OF assms(2) b]
      window_wait_pos[OF assms(3) c] n by (simp add: L')
qed

lemma acquire_loop_strict_clock:
  "sorted_wrt (<) clock \<Longrightarrow> acquire_loop timeout start clock L = Some (Returned True, L') \<Longrightarrow>
     int (length (window_60s L')) \<le> requests_per_minute L
   \<and> int (length (window_10s L')) \<le> requests_per_10s L
   \<and> int (length (window_1s L')) \<le> requests_per_1s L"
proof (induction timeout start clock L rule: acquire_loop.induct)
  case (1 timeout start_time now c60 c10 c1 rest L)
  obtain r L1 where g: "get_wait_time now c60 c10 c1 L = (r, L1)" by force
  from "1.prems"(2) g obtain w where r: "r = Inr w" by (cases r) auto
  have caps: "requests_per_minute (note_blocked L1) = requests_per_minute L"
     "requests_per_10s (note_blocked L1) = requests_per_10s L"
     "requests_per_1s (note_blocked L1) = requests_per_1s L"
    using g by (auto simp: get_wait_time_def Let_def note_blocked_def split: sum.splits)
  show ?case
  proof (cases "w \<le> 0")
    case True
    from "1.prems"(1) have lt: "now < c60" "now < c10" "now < c1" by auto
    from "1.prems"(2) g r True obtain t where L': "L' = record_grant start_time t L1"
      by (auto split: list.splits)
    from get_wait_time_strict[OF lt g[unfolded r] True] show ?thesis
      by (simp add: L' record_grant_def)
  next
    case False
    show ?thesis
    proof (cases timeout)
      case None
      with "1.prems"(2) g r False
      have rec: "acquire_loop timeout start_time rest (note_blocked L1) = Some (Returned True, L')"
        by simp
      from "1.prems"(1) have "sorted_wrt (<) rest" by simp
      from "1.IH"(1)[OF g[symmetric] r False None this rec] caps show ?thesis by simp
    next
      case (Some tmo)
      with "1.prems"(2) g r False obtain t rest' where rest: "rest = t # rest'"
        and nt: "\<not> (t - start_time) + w > tmo"
        and rec: "acquire_loop timeout start_time rest' (note_blocked L1) = Some (Returned True, L')"
        by (auto split: list.splits if_splits)
      from "1.prems"(1) rest have "sorted_wrt (<) rest'" by simp
      from "1.IH"(2)[OF g[symmetric] r False Some rest nt this rec] caps show ?thesis by simp
    qed
  qed
qed simp_all

section \<open>Properties of the Store\<close>

lemma sql_update_length [simp]: "length (sql_update P f tbl) = length tbl"
  by (simp add: sql_update_def)

lemma sql_update_nth: "i < length tbl \<Longrightarrow> sql_update P f tbl ! i = (if P (tbl ! i) then f (tbl ! i) else tbl ! i)"
  by (simp add: sql_update_def)

text \<open>
  Claim C10. After \<^verbatim>\<open>update_subreddit_status(name, status, error_message)\<close> the row
  stored under the lower-cased name has \<^verbatim>\<open>is_accessible\<close> 1 when the status is
  \<^verbatim>\<open>active\<close> or \<^verbatim>\<open>pending\<close> and 0 for every other status; of its columns only
  \<^verbatim>\<open>status\<close>, \<^verbatim>\<open>is_accessible\<close> and \<^verbatim>\<open>error_message\<close> are written, and every other
  row is left as it was.
\<close>

theorem update_subreddit_status_accessible:
  assumes "i < length tbl"
  shows "length (update_subreddit_status name status error_message tbl) = length tbl
    \<and> ((tbl ! i) Name = SText (lower name) \<longrightarrow>
         (update_subreddit_status name status error_message tbl ! i) Is_accessible
           = (if status = ''active'' \<or> status = ''pending'' then SInt 1 else SInt 0)
       \<and> (update_subreddit_status name status error_message tbl ! i) Status = SText status
       \<and> (update_subreddit_status name status error_message tbl ! i) Error_message
           = (case error_message of None \<Rightarrow> SNull | Some m \<Rightarrow> SText m)
       \<and> (\<forall>c. c \<notin> {Status, Is_accessible, Error_message} \<longrightarrow>
            (update_subreddit_status name status error_message tbl ! i) c = (tbl ! i) c))
    \<and> ((tbl ! i) Name \<noteq> SText (lower name) \<longrightarrow>
         update_subreddit_status name status error_message tbl ! i = tbl ! i)"
  using assms
  by (simp add: update_subreddit_status_def Let_def sql_update_nth name_is_def opt_text_def)

theorem update_subreddit_status_accessible_witness:
  "(update_subreddit_status ''Cats'' ''private'' None [inserted_row ''dogs'', inserted_row ''cats''] ! 1) Is_accessible = SInt 0
   \<and> (update_subreddit_status ''Cats'' ''private'' None [inserted_row ''dogs'', inserted_row ''cats''] ! 1) Retry_count = SInt 0
   \<and> update_subreddit_status ''Cats'' ''private'' None [inserted_row ''dogs'', inserted_row ''cats''] ! 0 = inserted_row ''dogs''"
  using update_subreddit_status_accessible[of 1 "[inserted_row ''dogs'', inserted_row ''cats'']" "''Cats''" "''private''" None]
    update_subreddit_status_accessible[of 0 "[inserted_row ''dogs'', inserted_row ''cats'']" "''Cats''" "''private''" None]
  by (simp add: lower_def inserted_row_def)

lemma fix_inconsistent_states_rows:
  assumes "i < length tbl"
  shows "length (snd (fix_inconsistent_states tbl)) = length tbl
     \<and> snd (fix_inconsistent_states tbl) ! i =
        (if pending_with_metadata (tbl ! i) then (tbl ! i)(Metadata_collected := SInt 0)
         else if completed_without_metadata (tbl ! i) then (tbl ! i)(Status := SText ''pending'')
         else tbl ! i)"
  using assms
  by (auto simp: fix_inconsistent_states_def Let_def sql_update_nth
        pending_with_metadata_def completed_without_metadata_def)

lemma fix_inconsistent_states_none_pending:
  "r \<in> set (snd (fix_inconsistent_states tbl)) \<Longrightarrow> \<not> pending_with_metadata r"
  by (auto simp: fix_inconsistent_states_def Let_def sql_update_def
        pending_with_metadata_def completed_without_metadata_def)

section \<open>Properties of the interleaving\<close>

lemma skip_used_ge: "i \<le> skip_used xs rem i"
proof (induction xs rem i rule: skip_used.induct)
  case (1 xs rem i)
  then show ?case by (cases "i < length xs \<and> xs ! i \<notin> set rem") (auto simp: skip_used.simps[of xs rem i])
qed

lemma skip_used_skipped: "i \<le> j \<Longrightarrow> j < skip_used xs rem i \<Longrightarrow> xs ! j \<notin> set rem"
proof (induction xs rem i rule: skip_used.induct)
  case (1 xs rem i)
  show ?case
  proof (cases "i < length xs \<and> xs ! i \<notin> set rem")
    case True
    with "1.prems" have j: "j < skip_used xs rem (i + 1)"
      by (simp add: skip_used.simps[of xs rem i])
    show ?thesis
    proof (cases "j = i")
      case True
      with \<open>i < length xs \<and> xs ! i \<notin> set rem\<close> show ?thesis by simp
    next
      case False
      with "1.prems"(1) have "i + 1 \<le> j" by simp
      from "1.IH"[OF True this j] show ?thesis .
    qed
  next
    case False
    with "1.prems" show ?thesis by (simp add: skip_used.simps[of xs rem i])
  qed
qed

lemma skip_used_found: "skip_used xs rem i < length xs \<Longrightarrow> xs ! skip_used xs rem i \<in> set rem"
proof (induction xs rem i rule: skip_used.induct)
  case (1 xs rem i)
  show ?case
  proof (cases "i < length xs \<and> xs ! i \<notin> set rem")
    case True
    then have eq: "skip_used xs rem i = skip_used xs rem (i + 1)"
      by (simp add: skip_used.simps[of xs rem i])
    with "1.IH"[OF True] "1.prems" show ?thesis by simp
  next
    case False
    then have eq: "skip_used xs rem i = i" by (auto simp: skip_used.simps[of xs rem i])
    with False "1.prems" show ?thesis by simp
  qed
qed

lemma find_first:
  "i < length xs \<Longrightarrow> P (xs ! i) \<Longrightarrow> \<forall>j<i. \<not> P (xs ! j) \<Longrightarrow> find P xs = Some (xs ! i)"
  by (auto simp: find_Some_iff)

lemma priority_pick_next:
  assumes rem: "set rem = set xs - set res" and used: "\<forall>j<idx. xs ! j \<notin> set rem"
    and ne: "rem \<noteq> []"
  shows "\<exists>p idx'. priority_pick xs (res, rem, idx) = (res @ [p], removeAll p rem, idx')
           \<and> p \<in> set rem \<and> find (\<lambda>x. x \<notin> set res) xs = Some p
           \<and> (\<forall>j<idx'. xs ! j \<notin> set (removeAll p rem))"
proof -
  let ?i = "skip_used xs rem idx"
  from ne obtain y where y: "y \<in> set rem" by (cases rem) auto
  with rem obtain m where m: "m < length xs" "xs ! m = y" by (auto simp: in_set_conv_nth)
  have idx_m: "idx \<le> m" using used y m by (meson not_le)
  have i_lt: "?i < length xs"
  proof (rule ccontr)
    assume "\<not> ?i < length xs"
    with m(1) have "m < ?i" by simp
    from skip_used_skipped[OF idx_m this] m(2) y show False by simp
  qed
  have i_in: "xs ! ?i \<in> set rem" using i_lt by (rule skip_used_found)
  have before: "\<forall>j<?i. xs ! j \<notin> set rem"
    using used skip_used_skipped[of idx _ xs rem] by (meson not_le)
  have fnd: "find (\<lambda>x. x \<notin> set res) xs = Some (xs ! ?i)"
  proof (rule find_first[OF i_lt])
    show "xs ! ?i \<notin> set res" using i_in rem by auto
    show "\<forall>j<?i. \<not> xs ! j \<notin> set res"
    proof (intro allI impI)
      fix j assume j: "j < ?i"
      with i_lt have "xs ! j \<in> set xs" by simp
      with before j rem show "\<not> xs ! j \<notin> set res" by auto
    qed
  qed
  have after: "\<forall>j<?i + 1. xs ! j \<notin> set (removeAll (xs ! ?i) rem)"
    using before by (auto simp: less_Suc_eq)
  show ?thesis
  proof (cases "idx < length xs \<and> xs ! idx \<in> set rem")
    case True
    then have "?i = idx" by (simp add: skip_used.simps[of xs rem idx])
    with True fnd i_in after show ?thesis
      by (simp add: priority_pick_def Let_def)
  next
    case False
    then have "priority_pick xs (res, rem, idx)
        = (res @ [xs ! ?i], removeAll (xs ! ?i) rem, ?i + 1)"
      using i_lt by (auto simp: priority_pick_def Let_def)
    with fnd i_in after show ?thesis by blast
  qed
qed

lemma alternates_snoc:
  "alternates xs (ys @ [y]) \<longleftrightarrow>
     alternates xs ys
     \<and> (even (length ys) \<longrightarrow> find (\<lambda>x. x \<notin> set ys) xs = Some y)
     \<and> (odd (length ys) \<longrightarrow> y \<in> set xs - set ys)"
  by (auto simp: alternates_def less_Suc_eq nth_append)

lemma interleave_loop_inv:
  assumes "distinct res" "set rem = set xs - set res" "set res \<subseteq> set xs"
    "\<forall>j<idx. xs ! j \<notin> set rem" "even (length res)" "alternates xs res"
  shows "distinct (interleave_loop rnd k xs res rem idx)
       \<and> set (interleave_loop rnd k xs res rem idx) = set xs
       \<and> alternates xs (interleave_loop rnd k xs res rem idx)"
  using assms
proof (induction rnd k xs res rem idx rule: interleave_loop.induct)
  case (1 rnd k xs res rem idx)
  show ?case
  proof (cases "rem = []")
    case True
    with "1.prems" show ?thesis
      by (subst (1 2 3) interleave_loop.simps) auto
  next
    case False
    from priority_pick_next[OF "1.prems"(2) "1.prems"(4) False]
    obtain p idx' where pp: "priority_pick xs (res, rem, idx) = (res @ [p], removeAll p rem, idx')"
      and p_in: "p \<in> set rem" and p_find: "find (\<lambda>x. x \<notin> set res) xs = Some p"
      and used': "\<forall>j<idx'. xs ! j \<notin> set (removeAll p rem)"
      by blast
    define res1 where "res1 = res @ [p]"
    define rem1 where "rem1 = removeAll p rem"
    have pp1: "priority_pick xs (res, rem, idx) = (res1, rem1, idx')"
      using pp by (simp add: res1_def rem1_def)
    have d1: "distinct res1" using "1.prems"(1,2) p_in by (auto simp: res1_def)
    have s1: "set rem1 = set xs - set res1" using "1.prems"(2) by (auto simp: res1_def rem1_def)
    have sub1: "set res1 \<subseteq> set xs" using "1.prems"(2,3) p_in by (auto simp: res1_def)
    have a1: "alternates xs res1"
      using "1.prems"(5,6) p_find by (simp add: alternates_snoc res1_def)
    have l1: "odd (length res1)" using "1.prems"(5) by (simp add: res1_def)
    have u1: "\<forall>j<idx'. xs ! j \<notin> set rem1" using used' by (simp add: rem1_def)
    show ?thesis
    proof (cases "rem1 = []")
      case True
      have "interleave_loop rnd k xs res rem idx = res1"
        using False pp1 True by (subst interleave_loop.simps) simp
      moreover have "set res1 = set xs" using s1 sub1 True by auto
      ultimately show ?thesis using d1 a1 by simp
    next
      case ne1: False
      define r where "r = rem1 ! (rnd k mod length rem1)"
      have r_in: "r \<in> set rem1" unfolding r_def using ne1 by (intro nth_mem) simp
      define res2 where "res2 = res1 @ [r]"
      define rem2 where "rem2 = removeAll r rem1"
      have eq: "interleave_loop rnd k xs res rem idx
              = interleave_loop rnd (k + 1) xs res2 rem2 idx'"
        using False pp1 ne1
        by (subst interleave_loop.simps) (simp add: Let_def r_def res2_def rem2_def)
      have d2: "distinct res2" using d1 s1 r_in by (auto simp: res2_def)
      have s2: "set rem2 = set xs - set res2" using s1 by (auto simp: res2_def rem2_def)
      have sub2: "set res2 \<subseteq> set xs" using sub1 s1 r_in by (auto simp: res2_def)
      have u2: "\<forall>j<idx'. xs ! j \<notin> set rem2" using u1 by (auto simp: rem2_def)
      have e2: "even (length res2)" using l1 by (simp add: res2_def)
      have a2: "alternates xs res2"
        using a1 l1 r_in s1 by (simp add: alternates_snoc res2_def)
      have "distinct (interleave_loop rnd (k + 1) xs res2 rem2 idx')
          \<and> set (interleave_loop rnd (k + 1) xs res2 rem2 idx') = set xs
          \<and> alternates xs (interleave_loop rnd (k + 1) xs res2 rem2 idx')"
        using "1.IH"[OF False pp1[symmetric] refl ne1 r_def, folded res2_def rem2_def,
            OF d2 s2 sub2 u2 e2 a2] .
      with eq show ?thesis by simp
    qed
  qed
qed

lemma alternates_short: "distinct xs \<Longrightarrow> length xs \<le> 2 \<Longrightarrow> alternates xs xs"
proof -
  assume d: "distinct xs" and l: "length xs \<le> 2"
  consider "xs = []" | a where "xs = [a]" | a b where "xs = [a, b]"
    using l by (cases xs; cases "tl xs"; cases "tl (tl xs)") auto
  then show ?thesis
    using d by cases (auto simp: alternates_def less_Suc_eq)
qed

lemma interleave_with_random_perm:
  assumes "distinct xs"
  shows "distinct (interleave_with_random rnd xs)
       \<and> set (interleave_with_random rnd xs) = set xs
       \<and> alternates xs (interleave_with_random rnd xs)"
proof (cases "length xs \<le> 2")
  case True
  with assms alternates_short show ?thesis by (simp add: interleave_with_random_def)
next
  case False
  have "alternates xs []" by (simp add: alternates_def)
  with assms interleave_loop_inv[of "[]" "remdups xs" xs 0 rnd 0] False
  show ?thesis by (simp add: interleave_with_random_def)
qed

text \<open>
  Claim C8. For an ordered list of ten distinct items and any sequence of random draws, the
  output of \<^verbatim>\<open>_interleave_with_random\<close> is a permutation of the input with every item
  exactly once, it starts with the first item of the ordered list, and its positions
  alternate: each even position holds the next item of the ordered list not yet put out,
  each odd position an item picked from those still remaining.
\<close>

theorem interleave_with_random_alternating_permutation:
  assumes "distinct xs" and "length xs = 10"
  shows "mset (interleave_with_random rnd xs) = mset xs
       \<and> distinct (interleave_with_random rnd xs)
       \<and> interleave_with_random rnd xs ! 0 = xs ! 0
       \<and> alternates xs (interleave_with_random rnd xs)"
proof -
  let ?ys = "interleave_with_random rnd xs"
  from interleave_with_random_perm[OF assms(1), of rnd]
  have d: "distinct ?ys" and s: "set ?ys = set xs" and a: "alternates xs ?ys" by simp_all
  from d s assms(1) have m: "mset ?ys = mset xs"
    by (simp add: set_eq_iff_mset_eq_distinct)
  then have "length ?ys = length xs" by (metis size_mset)
  with assms(2) have pos: "0 < length ?ys" by simp
  from a pos have "find (\<lambda>x. x \<notin> set (take 0 ?ys)) xs = Some (?ys ! 0)"
    unfolding alternates_def by (metis even_zero)
  moreover from assms(2) obtain x xs' where "xs = x # xs'" by (cases xs) auto
  ultimately have "?ys ! 0 = xs ! 0" by simp
  with m d a show ?thesis by simp
qed

theorem interleave_with_random_alternating_permutation_witness:
  "distinct [0, 1, 2, 3, 4, 5, 6, 7, 8, 9 :: nat] \<and> length [0, 1, 2, 3, 4, 5, 6, 7, 8, 9 :: nat] = 10
   \<and> mset (interleave_with_random (\<lambda>k. 3 * k + 1) [0, 1, 2, 3, 4, 5, 6, 7, 8, 9 :: nat])
       = mset [0, 1, 2, 3, 4, 5, 6, 7, 8, 9]
   \<and> alternates [0, 1, 2, 3, 4, 5, 6, 7, 8, 9 :: nat]
       (interleave_with_random (\<lambda>k. 3 * k + 1) [0, 1, 2, 3, 4, 5, 6, 7, 8, 9 :: nat])"
proof -
  have h1: "distinct [0, 1, 2, 3, 4, 5, 6, 7, 8, 9 :: nat]" by simp
  have h2: "length [0, 1, 2, 3, 4, 5, 6, 7, 8, 9 :: nat] = 10" by simp
  from interleave_with_random_alternating_permutation[OF h1 h2, of "\<lambda>k. 3 * k + 1"] h1 h2
  show ?thesis by blast
qed

section \<open>Properties of the API client\<close>

lemma sleeps_after_429_append:
  assumes "sleeps_after_429 es1" "sleeps_after_429 es2"
  shows "sleeps_after_429 (es1 @ es2)"
  unfolding sleeps_after_429_def
proof (intro allI impI)
  fix i secs
  assume i: "i < length (es1 @ es2)" and h: "hit ((es1 @ es2) ! i) = Some secs"
  show "Suc i < length (es1 @ es2) \<and> (es1 @ es2) ! Suc i = Slept (real_of_int secs)"
  proof (cases "i < length es1")
    case True
    with h have "hit (es1 ! i) = Some secs" by (simp add: nth_append)
    with assms(1) True have "Suc i < length es1 \<and> es1 ! Suc i = Slept (real_of_int secs)"
      unfolding sleeps_after_429_def by blast
    then show ?thesis by (simp add: nth_append)
  next
    case False
    with i h have j: "i - length es1 < length es2" "hit (es2 ! (i - length es1)) = Some secs"
      by (auto simp: nth_append)
    with assms(2) have "Suc (i - length es1) < length es2
        \<and> es2 ! Suc (i - length es1) = Slept (real_of_int secs)"
      unfolding sleeps_after_429_def by blast
    with False show ?thesis by (auto simp: nth_append Suc_diff_le)
  qed
qed

lemma paced_trans: "paced n c c1 \<Longrightarrow> paced m c1 c2 \<Longrightarrow> paced (n + m) c c2"
  unfolding paced_def
  by (elim exE conjE, rule_tac x = "es @ esa" in exI) (simp add: sleeps_after_429_append)

lemma paced_mono: "paced n c c' \<Longrightarrow> n \<le> m \<Longrightarrow> paced m c c'"
  unfolding paced_def by auto

lemma paced_quiet:
  assumes "events c' = events c @ es" "rate_limit_hits c' = rate_limit_hits c"
    "\<forall>e\<in>set es. \<not> is_attempt e"
  shows "paced 0 c c'"
proof -
  have a: "filter is_attempt es = []" using assms(3) by (simp add: filter_empty_conv)
  have h: "\<forall>e\<in>set es. hit e = None"
    using assms(3) by (auto simp: hit_def is_attempt_def split: event.splits)
  then have b: "filter (\<lambda>e. hit e \<noteq> None) es = []" by (simp add: filter_empty_conv)
  have "sleeps_after_429 es" using h by (auto simp: sleeps_after_429_def)
  with a b assms(1,2) show ?thesis unfolding paced_def by auto
qed

lemma paced_refl: "paced 0 c c"
  by (rule paced_quiet[of c c "[]"]) simp_all

lemma sleep_paced: "paced 0 c (sleep d c)"
  by (rule paced_quiet[of _ _ "[Slept d]"]) (simp_all add: sleep_def is_attempt_def)

lemma draw_paced: "draw w c = (u, c1) \<Longrightarrow> paced 0 c c1"
  by (rule paced_quiet[of _ _ "[]"]) (auto simp: draw_def)

lemma read_wall_paced: "read_wall w c = (u, c1) \<Longrightarrow> paced 0 c c1"
  by (rule paced_quiet[of _ _ "[]"]) (auto simp: read_wall_def)

lemma random_delay_paced: "paced 0 c (random_delay w c)"
proof -
  obtain u c1 where d: "draw w c = (u, c1)" by force
  from paced_trans[OF draw_paced[OF d] sleep_paced] d show ?thesis
    by (simp add: random_delay_def)
qed

lemma backoff_wait_paced: "backoff_wait w b c = (b', c1) \<Longrightarrow> paced 0 c c1"
proof -
  assume a: "backoff_wait w b c = (b', c1)"
  obtain u c0 where d: "draw w c = (u, c0)" by force
  from paced_trans[OF draw_paced[OF d] sleep_paced] d a show ?thesis
    by (auto simp: backoff_wait_def)
qed

lemma authenticate_paced: "authenticate w c = (r, c1) \<Longrightarrow> paced 0 c c1"
  by (rule paced_quiet[of _ _ "[Auth_posted]"])
     (auto simp: authenticate_def read_wall_def Let_def is_attempt_def split: auth_outcome.splits)

lemma ensure_token_valid_paced: "ensure_token_valid w c = (r, c1) \<Longrightarrow> paced 0 c c1"
proof -
  assume a: "ensure_token_valid w c = (r, c1)"
  obtain now c0 where rw: "read_wall w c = (now, c0)" by force
  have p0: "paced 0 c c0" using rw by (rule read_wall_paced)
  from a rw consider "authenticate w c = (r, c1)" | "authenticate w c0 = (r, c1)" | "c1 = c0"
    by (auto simp: ensure_token_valid_def split: option.splits list.splits if_splits)
  then show ?thesis
  proof cases
    case 1 then show ?thesis by (rule authenticate_paced)
  next
    case 2 from paced_trans[OF p0 authenticate_paced[OF 2]] show ?thesis by simp
  next
    case 3 with p0 show ?thesis by simp
  qed
qed


lemma paced_attempt:
  assumes "events c' = events c @ [Attempted a] @ es" "\<forall>e\<in>set es. \<not> is_attempt e"
    and "hit (Attempted a) = None" "rate_limit_hits c' = rate_limit_hits c"
  shows "paced 1 c c'"
proof -
  have h: "\<forall>e\<in>set ([Attempted a] @ es). hit e = None"
    using assms(2,3) by (auto simp: hit_def is_attempt_def split: event.splits)
  then have b: "filter (\<lambda>e. hit e \<noteq> None) ([Attempted a] @ es) = []"
    by (simp add: filter_empty_conv)
  have s: "sleeps_after_429 ([Attempted a] @ es)"
    using h unfolding sleeps_after_429_def by (metis nth_mem option.distinct(1))
  have "filter is_attempt es = []" using assms(2) by (simp add: filter_empty_conv)
  then have a: "length (filter is_attempt ([Attempted a] @ es)) \<le> 1" by simp
  show ?thesis unfolding paced_def
    using assms(1,4) a b s by (intro exI[of _ "[Attempted a] @ es"]) simp
qed

lemma paced_hit:
  assumes "events c' = events c @ [Attempted a, Slept (real_of_int secs)]"
    and "hit (Attempted a) = Some secs" "rate_limit_hits c' = rate_limit_hits c + 1"
  shows "paced 1 c c'"
proof -
  have s: "sleeps_after_429 [Attempted a, Slept (real_of_int secs)]"
    using assms(2) by (auto simp: sleeps_after_429_def less_Suc_eq hit_def)
  have b: "length (filter (\<lambda>e. hit e \<noteq> None) [Attempted a, Slept (real_of_int secs)]) = 1"
    using assms(2) by (simp add: hit_def)
  have a: "length (filter is_attempt [Attempted a, Slept (real_of_int secs)]) \<le> 1"
    by (simp add: is_attempt_def)
  show ?thesis unfolding paced_def
    using assms(1,3) a b s by (intro exI[of _ "[Attempted a, Slept (real_of_int secs)]"]) simp
qed

lemma try_request_paced:
  assumes "try_request w c = (r, c')"
  shows "paced 1 c c'"
proof -
  define a where "a = http w (http_calls c)"
  define c0 where "c0 = c\<lparr>http_calls := http_calls c + 1\<rparr>"
  have p0: "paced 0 c c0" by (rule paced_quiet[of _ _ "[]"]) (simp_all add: c0_def)
  show ?thesis
  proof (cases a)
    case Limiter_error
    with assms have c': "c' = c0\<lparr>events := events c0 @ [Attempted a]\<rparr>"
      by (simp add: try_request_def a_def c0_def Let_def)
    have "paced 1 c0 c'"
      by (rule paced_attempt[of _ _ a "[]"]) (simp_all add: c' hit_def Limiter_error)
    from paced_trans[OF p0 this] show ?thesis by simp
  next
    case Transport_error
    define c1 where "c1 = random_delay w c0"
    have p1: "paced 0 c0 c1" unfolding c1_def by (rule random_delay_paced)
    from Transport_error assms have c': "c' = c1\<lparr>events := events c1 @ [Attempted a]\<rparr>"
      by (simp add: try_request_def a_def c0_def c1_def Let_def)
    have "paced 1 c1 c'"
      by (rule paced_attempt[of _ _ a "[]"]) (simp_all add: c' hit_def Transport_error)
    from paced_trans[OF paced_trans[OF p0 p1] this] show ?thesis by simp
  next
    case (Got resp)
    define c1 where "c1 = random_delay w c0"
    have p1: "paced 0 c0 c1" unfolding c1_def by (rule random_delay_paced)
    have p01: "paced 0 c c1" using paced_trans[OF p0 p1] by simp
    define c2 where "c2 = c1\<lparr>events := events c1 @ [Attempted a],
                         api_total_requests := api_total_requests c1 + 1\<rparr>"
    have G: "http w (http_calls c) = Got resp" using Got by (simp add: a_def)
    note defs = try_request_def Let_def c2_def c1_def c0_def G Got
    have "paced 1 c1 c'"
    proof (cases "status_code resp = 429")
      case True
      show ?thesis
      proof (cases "retry_seconds (retry_after resp)")
        case None
        with True assms have c': "c' = c2" by (auto simp: defs)
        show ?thesis
          by (rule paced_attempt[of _ _ a "[]"]) (simp_all add: c' c2_def hit_def Got True None)
      next
        case (Some secs)
        with True assms
        have c': "c' = sleep (real_of_int secs) (c2\<lparr>rate_limit_hits := rate_limit_hits c2 + 1\<rparr>)"
          by (simp add: defs)
        show ?thesis
          by (rule paced_hit[of _ _ a secs]) (simp_all add: c' c2_def sleep_def hit_def Got True Some)
      qed
    next
      case n429: False
      have nh: "hit (Attempted a) = None" using n429 by (simp add: hit_def Got)
      show ?thesis
      proof (cases "status_code resp = 401")
        case True
        obtain ar c3 where au: "authenticate w (c2\<lparr>token := None\<rparr>) = (ar, c3)" by force
        with True n429 assms have c': "c' = c3" by (auto simp: defs split: sum.splits)
        from au have ev: "events c3 = events c1 @ [Attempted a] @ [Auth_posted]"
          and hits: "rate_limit_hits c3 = rate_limit_hits c1"
          by (auto simp: authenticate_def read_wall_def Let_def c2_def split: auth_outcome.splits)
        show ?thesis
          by (rule paced_attempt[of _ _ a "[Auth_posted]"]) (simp_all add: c' ev hits nh is_attempt_def)
      next
        case False
        with n429 assms have c': "c' = c2" by (auto simp: defs split: option.splits if_splits)
        show ?thesis
          by (rule paced_attempt[of _ _ a "[]"]) (simp_all add: c' c2_def nh)
      qed
    qed
    from paced_trans[OF p01 this] show ?thesis by simp
  qed
qed

lemma request_loop_paced: "request_loop w n b c = (j, c') \<Longrightarrow> paced n c c'"
proof (induction n arbitrary: b c)
  case 0
  then show ?case by (simp add: paced_refl)
next
  case (Suc n)
  obtain r c1 where t: "try_request w c = (r, c1)" by force
  have p1: "paced 1 c c1" using t by (rule try_request_paced)
  define c2 where "c2 = c1\<lparr>failed_requests := failed_requests c1 + 1\<rparr>"
  have p12: "paced 0 c1 c2" by (rule paced_quiet[of _ _ "[]"]) (simp_all add: c2_def)
  obtain b' c3 where bw: "backoff_wait w b c2 = (b', c3)" by force
  have p23: "paced 0 c2 c3" using bw by (rule backoff_wait_paced)
  have p2: "paced 1 c c2" using paced_trans[OF p1 p12] by simp
  have p3: "paced 1 c c3" using paced_trans[OF p2 p23] by simp
  from Suc.prems t bw consider
      "c' = c1" | "c' = c2"
    | "request_loop w n b c1 = (j, c')"
    | "request_loop w n b' c3 = (j, c')"
    by (auto simp: c2_def Let_def split: sum.splits step.splits exn.splits if_splits)
  then show ?case
  proof cases
    case 1 with p1 show ?thesis by (auto intro: paced_mono)
  next
    case 2 with p2 show ?thesis by (auto intro: paced_mono)
  next
    case 3
    from paced_trans[OF p1 Suc.IH[OF 3]] show ?thesis by simp
  next
    case 4
    from paced_trans[OF p3 Suc.IH[OF 4]] show ?thesis by simp
  qed
qed

text \<open>
  Claim C4, as the code has it. Whatever the responses, a call of \<^verbatim>\<open>_make_request\<close>
  only adds to the log, and in what it adds: every attempt counts against
  \<^verbatim>\<open>max_retries\<close>, those answered 429 included, so at most \<^verbatim>\<open>max_retries\<close> attempts
  are made; the 429 counter grows by one for each 429 response whose \<^verbatim>\<open>Retry-After\<close> is
  absent or an integer; and each of those is followed at once, before any further attempt,
  by a sleep of that many seconds.
\<close>

theorem rate_limited_response_is_an_attempt:
  assumes "make_request w max_retries c = (r, c')"
  shows "events c' = events c @ new_events c c'
        \<and> length (filter is_attempt (new_events c c')) \<le> max_retries
        \<and> rate_limit_hits c'
            = rate_limit_hits c + length (filter (\<lambda>e. hit e \<noteq> None) (new_events c c'))
        \<and> sleeps_after_429 (new_events c c')"
proof -
  obtain tr c1 where e: "ensure_token_valid w c = (tr, c1)" by force
  have p1: "paced 0 c c1" using e by (rule ensure_token_valid_paced)
  obtain j c2 where l: "request_loop w max_retries 0 c1 = (j, c2)" by force
  have p2: "paced max_retries c1 c2" using l by (rule request_loop_paced)
  from assms e l have "c' = c1 \<or> c' = c2"
    by (auto simp: make_request_def split: sum.splits)
  with p1 paced_trans[OF p1 p2] have "paced max_retries c c'"
    by (auto intro: paced_mono)
  then obtain es where es: "events c' = events c @ es"
      "length (filter is_attempt es) \<le> max_retries"
      "rate_limit_hits c' = rate_limit_hits c + length (filter (\<lambda>e. hit e \<noteq> None) es)"
      "sleeps_after_429 es"
    unfolding paced_def by blast
  from es(1) have "new_events c c' = es" by (simp add: new_events_def)
  with es show ?thesis by simp
qed

lemmas client_eval =
  draw_def quiet_world_def fresh_client_def make_request_def ensure_token_valid_def
  read_wall_def try_request_def random_delay_def sleep_def reply_def limited_def about_ok_def
  Let_def numeral_3_eq_3 is_success_def status_marker_def retry_seconds_def
  get_subreddit_info_def fetch_about_def make_diversity_request_def classify_def

theorem rate_limited_response_is_an_attempt_witness:
  "rate_limit_hits (snd (make_request throttled_world 3 fresh_client)) = 3
   \<and> sleeps_after_429 (new_events fresh_client (snd (make_request throttled_world 3 fresh_client)))
   \<and> length (filter is_attempt
        (new_events fresh_client (snd (make_request throttled_world 3 fresh_client)))) \<le> 3"
proof -
  have "rate_limit_hits (snd (make_request throttled_world 3 fresh_client)) = 3"
    by (simp add: throttled_world_def client_eval)
  with rate_limited_response_is_an_attempt[of throttled_world 3 fresh_client
      "fst (make_request throttled_world 3 fresh_client)"
      "snd (make_request throttled_world 3 fresh_client)"]
  show ?thesis by simp
qed

text \<open>
  Claim C4 as stated, refuted. Three rounds, the first three responses 429 with
  \<^verbatim>\<open>Retry-After: 5\<close>, a good response ready as the fourth: the three 429 responses use up
  the three rounds, the fourth request is never sent and the call returns \<^verbatim>\<open>None\<close>.
\<close>

theorem rate_limited_response_uses_retry_budget:
  "fst (make_request throttled_world 3 fresh_client) = Inr JNull
   \<and> http_calls (snd (make_request throttled_world 3 fresh_client)) = 3
   \<and> http throttled_world 3 = about_ok"
  by (simp add: throttled_world_def client_eval)

lemma http_calls_random_delay [simp]: "http_calls (random_delay w c) = http_calls c"
  by (simp add: random_delay_def draw_def sleep_def Let_def)

lemma http_calls_backoff_wait: "backoff_wait w b c = (b', c') \<Longrightarrow> http_calls c' = http_calls c"
  by (auto simp: backoff_wait_def draw_def sleep_def Let_def)

lemma try_request_failing:
  assumes "failing (http w (http_calls c))" "try_request w c = (r, c')"
  shows "http_calls c' = http_calls c + 1 \<and> (r = Inl Exception \<or> (\<exists>s\<ge>500. r = Inl (HTTPStatusError s)))"
proof (cases "http w (http_calls c)")
  case Limiter_error
  with assms(2) show ?thesis by (auto simp: try_request_def Let_def)
next
  case Transport_error
  with assms(2) show ?thesis by (auto simp: try_request_def Let_def)
next
  case (Got resp)
  with assms(1) have s: "status_code resp \<ge> 500" by (simp add: failing_def)
  then have "status_code resp \<noteq> 429" "status_code resp \<noteq> 401" "status_code resp \<noteq> 302"
    "\<not> is_success (status_code resp)" by (auto simp: is_success_def)
  with assms(2) Got s show ?thesis by (auto simp: try_request_def Let_def)
qed

lemma request_loop_all_failing:
  assumes "\<forall>i. failing (http w i)"
  shows "fst (request_loop w n b c) = JNull \<and> http_calls (snd (request_loop w n b c)) = http_calls c + n"
proof (induction n arbitrary: b c)
  case 0
  show ?case by simp
next
  case (Suc n)
  obtain r c1 where t: "try_request w c = (r, c1)" by force
  from try_request_failing[OF _ t] assms
  have h: "http_calls c1 = http_calls c + 1"
    and r: "r = Inl Exception \<or> (\<exists>s\<ge>500. r = Inl (HTTPStatusError s))" by auto
  define c2 where "c2 = c1\<lparr>failed_requests := failed_requests c1 + 1\<rparr>"
  obtain b' c3 where bw: "backoff_wait w b c2 = (b', c3)" by force
  have h3: "http_calls c3 = http_calls c + 1"
    using http_calls_backoff_wait[OF bw] h by (simp add: c2_def)
  have h2: "http_calls c2 = http_calls c + 1" using h by (simp add: c2_def)
  from r show ?case
  proof
    assume "r = Inl Exception"
    with t bw Suc.IH[of b' c3] h3 h2 show ?thesis
      by (cases "0 < n") (auto simp: c2_def Let_def)
  next
    assume "\<exists>s\<ge>500. r = Inl (HTTPStatusError s)"
    then obtain s where "s \<ge> 500" "r = Inl (HTTPStatusError s)" by blast
    with t bw Suc.IH[of b' c3] h3 show ?thesis
      by (auto simp: c2_def Let_def)
  qed
qed

lemma classify_JNull: "classify JNull = Inr (None, ''error'')"
  by (simp add: classify_def)

lemma get_subreddit_info_returns:
  "\<exists>m st c'. get_subreddit_info w subreddit c = (Inr (m, st), c')"
  by (auto simp: get_subreddit_info_def split: prod.splits sum.splits)

lemma get_subreddit_info_failed_request:
  assumes "fst (make_request w 3 (make_diversity_request w c)) = Inl e
         \<or> fst (make_request w 3 (make_diversity_request w c)) = Inr JNull"
  shows "fst (get_subreddit_info w subreddit c) = Inr (None, ''error'')"
  using assms
  by (auto simp: get_subreddit_info_def fetch_about_def classify_JNull split: prod.splits sum.splits)

lemma make_request_all_failing:
  assumes "\<forall>i. failing (http w i)"
  shows "(\<exists>e. fst (make_request w n c) = Inl e) \<or> fst (make_request w n c) = Inr JNull"
proof -
  obtain tr c1 where e: "ensure_token_valid w c = (tr, c1)" by force
  show ?thesis
  proof (cases tr)
    case (Inl x)
    with e show ?thesis by (simp add: make_request_def)
  next
    case (Inr u)
    with e request_loop_all_failing[OF assms, of n 0 c1] show ?thesis
      by (auto simp: make_request_def split: prod.splits)
  qed
qed

text \<open>
  Claim C6. \<^verbatim>\<open>get_subreddit_info\<close> returns on every input, it never raises; when the
  request has failed for good (it raised, or gave \<^verbatim>\<open>None\<close>) the result is no metadata
  with the classification \<^verbatim>\<open>error\<close>; and where every attempt fails, the three rounds of
  the request are all used before that result is given.
\<close>

theorem get_subreddit_info_never_raises:
  "(\<exists>m st c'. get_subreddit_info w subreddit c = (Inr (m, st), c'))
   \<and> ((\<exists>e. fst (make_request w 3 (make_diversity_request w c)) = Inl e)
        \<or> fst (make_request w 3 (make_diversity_request w c)) = Inr JNull
      \<longrightarrow> fst (get_subreddit_info w subreddit c) = Inr (None, ''error''))
   \<and> ((\<forall>i. failing (http w i))
      \<longrightarrow> fst (request_loop w 3 b c0) = JNull
        \<and> http_calls (snd (request_loop w 3 b c0)) = http_calls c0 + 3
        \<and> fst (get_subreddit_info w subreddit c) = Inr (None, ''error''))"
proof (intro conjI impI)
  show "\<exists>m st c'. get_subreddit_info w subreddit c = (Inr (m, st), c')"
    by (rule get_subreddit_info_returns)
next
  assume "(\<exists>e. fst (make_request w 3 (make_diversity_request w c)) = Inl e)
        \<or> fst (make_request w 3 (make_diversity_request w c)) = Inr JNull"
  then show "fst (get_subreddit_info w subreddit c) = Inr (None, ''error'')"
    using get_subreddit_info_failed_request by blast
next
  assume a: "\<forall>i. failing (http w i)"
  from request_loop_all_failing[OF a, of 3 b c0]
  show "fst (request_loop w 3 b c0) = JNull"
    and "http_calls (snd (request_loop w 3 b c0)) = http_calls c0 + 3" by simp_all
  from make_request_all_failing[OF a, of 3 "make_diversity_request w c"]
  show "fst (get_subreddit_info w subreddit c) = Inr (None, ''error'')"
    using get_subreddit_info_failed_request by blast
qed
theorem get_subreddit_info_never_raises_witness:
  "fst (get_subreddit_info dead_world ''cats'' fresh_client) = Inr (None, ''error'')
   \<and> http_calls (snd (request_loop dead_world 3 0 fresh_client)) = 3"
proof -
  have h: "\<forall>i. failing (http dead_world i)"
    by (simp add: dead_world_def quiet_world_def failing_def)
  from get_subreddit_info_never_raises[of dead_world "''cats''" fresh_client 0 fresh_client] h
  show ?thesis by (simp add: fresh_client_def)
qed

lemmas orchestrator_eval =
  process_subreddit_def handle_result_def handle_deleted_def handle_notfound_def handle_other_def
  fail_item_def delete_row_def set_retry_count_def is_user_profile_def scanner_with_def
  update_subreddit_def update_subreddit_status_def sql_update_def sql_delete_def name_is_def
  fetchone_def lower_def inserted_row_def refreshed_row_def opt_text_def bool_int_def cell_def

text \<open>
  Claim C5, evaluated. A 404 response is classified \<^verbatim>\<open>notfound\<close> and a 403 response
  \<^verbatim>\<open>deleted\<close>, each after one request. A 302 response also ends the call after one
  request, but \<^verbatim>\<open>_make_request\<close> returns \<^verbatim>\<open>None\<close> for it and \<^verbatim>\<open>get_subreddit_info\<close>
  classifies \<^verbatim>\<open>None\<close> as \<^verbatim>\<open>error\<close>. The two classifications are not equivalent to the
  caller: \<^verbatim>\<open>process_subreddit\<close> deletes the row on \<^verbatim>\<open>notfound\<close> and keeps it, with status
  \<^verbatim>\<open>error\<close>, on the redirect.
\<close>

theorem redirect_is_classified_error:
  "fst (get_subreddit_info redirect_world ''cats'' fresh_client) = Inr (None, ''error'')
   \<and> http_calls (snd (get_subreddit_info redirect_world ''cats'' fresh_client)) = 1
   \<and> fst (get_subreddit_info notfound_world ''cats'' fresh_client) = Inr (None, ''notfound'')
   \<and> http_calls (snd (get_subreddit_info notfound_world ''cats'' fresh_client)) = 1
   \<and> fst (get_subreddit_info forbidden_world ''cats'' fresh_client) = Inr (None, ''deleted'')
   \<and> http_calls (snd (get_subreddit_info forbidden_world ''cats'' fresh_client)) = 1
   \<and> cell ''cats'' Status
        (db (snd (process_subreddit redirect_world 0 ''cats'' (scanner_with [refreshed_row ''cats'']))))
       = Some (SText ''error'')
   \<and> cell ''cats'' Status
        (db (snd (process_subreddit notfound_world 0 ''cats'' (scanner_with [refreshed_row ''cats'']))))
       = None"
  by (simp add: redirect_world_def notfound_world_def forbidden_world_def client_eval
      orchestrator_eval)

section \<open>Properties of the orchestrator\<close>

lemma fetchone_sql_update:
  assumes "\<And>r. f r Name = r Name"
  shows "fetchone k (sql_update P f tbl) = map_option (\<lambda>r. if P r then f r else r) (fetchone k tbl)"
  using assms by (induction tbl) (auto simp: fetchone_def sql_update_def name_is_def)

lemma fetchone_sql_delete: "fetchone k (sql_delete (name_is k) tbl) = None"
  by (induction tbl) (auto simp: fetchone_def sql_delete_def)

lemma fetchone_Some_name: "fetchone k tbl = Some r \<Longrightarrow> r Name = SText k"
  by (auto simp: fetchone_def find_Some_iff name_is_def)

lemma fetchone_update_subreddit:
  "fetchone k (update_subreddit k' st em mc tbl)
     = map_option (\<lambda>r. if name_is (lower k') r
          then (case mc of
                  None \<Rightarrow> r(Status := SText st, Error_message := opt_text em)
                | Some b \<Rightarrow> r(Status := SText st, Error_message := opt_text em,
                              Metadata_collected := bool_int b))
          else r) (fetchone k tbl)"
  unfolding update_subreddit_def
  by (rule fetchone_sql_update) (simp split: option.splits)

lemma process_subreddit_forbidden_eq:
  assumes info: "get_subreddit_info w subreddit (reddit_client S) = (Inr (None, ''deleted''), c)"
    and row: "fetchone subreddit (db S) = Some r" and cnt: "r Retry_count = SInt n"
  shows "process_subreddit w now subreddit S =
     (True,
      if n + 1 \<ge> 3
      then S\<lparr>db := sql_delete (name_is subreddit)
                    (update_subreddit subreddit ''processing'' None None (db S)),
             reddit_client := c, consecutive_403s := 0\<rparr>
      else S\<lparr>db := sql_update (name_is subreddit) (\<lambda>r. r(Retry_count := SInt (n + 1)))
                    (update_subreddit subreddit ''processing'' None None (db S)),
             reddit_client := c, consecutive_403s := consecutive_403s S + 1\<rparr>)"
proof -
  define t0 where "t0 = update_subreddit subreddit ''processing'' None None (db S)"
  define S0 where "S0 = S\<lparr>db := t0, reddit_client := c\<rparr>"
  have f0: "map_option (\<lambda>r. r Retry_count) (fetchone subreddit t0) = Some (SInt n)"
    unfolding t0_def by (simp add: fetchone_update_subreddit row cnt)
  have notuser: "\<not> is_user_profile None" by (simp add: is_user_profile_def)
  have hr: "handle_result w now subreddit None ''deleted'' S0
      = handle_deleted (Some (SInt n)) subreddit S0"
    by (simp add: handle_result_def notuser S0_def f0)
  have ps: "process_subreddit w now subreddit S
      = (case handle_deleted (Some (SInt n)) subreddit S0 of
           Inl (e, S1) \<Rightarrow> fail_item w e subreddit S1 | Inr res \<Rightarrow> res)"
    using info hr by (simp add: process_subreddit_def Let_def t0_def S0_def)
  show ?thesis
    by (simp add: ps handle_deleted_def Let_def delete_row_def set_retry_count_def S0_def t0_def)
qed

text \<open>
  The 403 branch in general: the counter and the retry count go up by one; at three the
  row is deleted and the counter is reset, below three the new count is stored.
\<close>

lemma process_subreddit_forbidden:
  assumes info: "get_subreddit_info w subreddit (reddit_client S) = (Inr (None, ''deleted''), c)"
    and low: "lower subreddit = subreddit"
    and row: "fetchone subreddit (db S) = Some r" and cnt: "r Retry_count = SInt n"
  shows "fst (process_subreddit w now subreddit S) = True
    \<and> (n + 1 \<ge> 3 \<longrightarrow>
          fetchone subreddit (db (snd (process_subreddit w now subreddit S))) = None
        \<and> consecutive_403s (snd (process_subreddit w now subreddit S)) = 0)
    \<and> (n + 1 < 3 \<longrightarrow>
          fetchone subreddit (db (snd (process_subreddit w now subreddit S)))
            = Some (r(Status := SText ''processing'', Error_message := SNull,
                      Retry_count := SInt (n + 1)))
        \<and> consecutive_403s (snd (process_subreddit w now subreddit S)) = consecutive_403s S + 1)"
proof -
  have nm: "r Name = SText subreddit" using fetchone_Some_name[OF row] .
  show ?thesis
    unfolding process_subreddit_forbidden_eq[OF info row cnt]
    using nm
    by (simp add: fetchone_sql_delete fetchone_sql_update fetchone_update_subreddit row low
        name_is_def opt_text_def)
qed

lemma forbidden_info:
  "get_subreddit_info forbidden_world k fresh_client
     = (Inr (None, ''deleted''), snd (get_subreddit_info forbidden_world k fresh_client))"
  by (simp add: forbidden_world_def client_eval)

text \<open>
  Claim C2, evaluated. In refresh mode a row is taken from the work list with status
  \<^verbatim>\<open>active\<close>; \<^verbatim>\<open>process_subreddit\<close> marks it \<^verbatim>\<open>processing\<close> before the fetch. On a
  403 the consecutive-forbidden counter and the retry count are incremented and, below
  three strikes, the incremented count is stored; but the status stays \<^verbatim>\<open>processing\<close>,
  neither what it was nor \<^verbatim>\<open>pending\<close>, and the work-list query, which asks for status
  \<^verbatim>\<open>active\<close>, does not return the row again.
\<close>

theorem forbidden_item_is_left_processing:
  "fst (process_subreddit forbidden_world 0 ''cats'' (scanner_with [refreshed_row ''cats''])) = True
   \<and> consecutive_403s
        (snd (process_subreddit forbidden_world 0 ''cats'' (scanner_with [refreshed_row ''cats'']))) = 1
   \<and> cell ''cats'' Retry_count
        (db (snd (process_subreddit forbidden_world 0 ''cats'' (scanner_with [refreshed_row ''cats'']))))
       = Some (SInt 1)
   \<and> cell ''cats'' Status [refreshed_row ''cats''] = Some (SText ''active'')
   \<and> cell ''cats'' Status
        (db (snd (process_subreddit forbidden_world 0 ''cats'' (scanner_with [refreshed_row ''cats'']))))
       = Some (SText ''processing'')
   \<and> get_subreddits_for_update None 0 False [refreshed_row ''cats''] = [''cats'']
   \<and> get_subreddits_for_update None 0 False
        (db (snd (process_subreddit forbidden_world 0 ''cats'' (scanner_with [refreshed_row ''cats'']))))
       = []"
proof -
  have i: "get_subreddit_info forbidden_world ''cats''
             (reddit_client (scanner_with [refreshed_row ''cats'']))
     = (Inr (None, ''deleted''), snd (get_subreddit_info forbidden_world ''cats'' fresh_client))"
    using forbidden_info[of "''cats''"] by (simp add: scanner_with_def)
  have r: "fetchone ''cats'' (db (scanner_with [refreshed_row ''cats''])) = Some (refreshed_row ''cats'')"
    by (simp add: scanner_with_def fetchone_def name_is_def refreshed_row_def inserted_row_def)
  have n: "refreshed_row ''cats'' Retry_count = SInt 0"
    by (simp add: refreshed_row_def inserted_row_def)
  note p = process_subreddit_forbidden_eq[OF i r n, of 0]
  show ?thesis
    unfolding p
    by (simp add: scanner_with_def cell_def fetchone_def name_is_def refreshed_row_def
        inserted_row_def get_subreddits_for_update_def needs_update_def row_name_def
        update_subreddit_def sql_update_def lower_def opt_text_def)
qed

lemma lower_char_idem: "lower_char (lower_char c) = lower_char c"
  by (cases c) (auto simp: Let_def)

lemma lower_idem: "lower (lower s) = lower s"
  by (simp add: lower_def lower_char_idem)

lemma sql_delete_absent:
  "fetchone k tbl = None \<Longrightarrow> sql_delete (name_is k) (tbl @ [inserted_row k]) = tbl"
  by (induction tbl) (auto simp: fetchone_def sql_delete_def name_is_def inserted_row_def)

lemma add_then_delete:
  assumes "fetchone k tbl = None" "lower k = k"
  shows "sql_delete (name_is k) (snd (add_subreddit k tbl)) = tbl"
  using assms by (simp add: add_subreddit_def sql_delete_absent)

lemma track_success_fields [simp]:
  "db (track_success S) = db S" "consecutive_403s (track_success S) = consecutive_403s S"
  "reddit_client (track_success S) = reddit_client S"
  by (simp_all add: track_success_def Let_def)

lemma scan_new_removed:
  assumes info: "get_subreddit_info w k (reddit_client S) = (Inr (None, st), c)"
    and st: "st = ''deleted'' \<or> st = ''notfound''"
  shows "scan_new w now row k S P =
     (Next, track_success (S\<lparr>db := sql_delete (name_is k) (snd (add_subreddit k (db S))),
                              reddit_client := c, consecutive_403s := 0\<rparr>), P)"
  using info st
  by (auto simp: scan_new_def Let_def is_user_profile_def delete_row_def track_success_def)

text \<open>In a Store without the name, the updates by name act on the row added last.\<close>

lemma sql_update_absent:
  "fetchone k tbl = None \<Longrightarrow> sql_update (name_is k) f tbl = tbl"
  by (induction tbl) (auto simp: fetchone_def sql_update_def)

lemma sql_update_last:
  assumes "fetchone k tbl = None" "r Name = SText k"
  shows "sql_update (name_is k) f (tbl @ [r]) = tbl @ [f r]"
  using sql_update_absent[OF assms(1), of f] assms(2)
  by (simp add: sql_update_def name_is_def)

lemma sql_delete_last:
  assumes "fetchone k tbl = None" "r Name = SText k"
  shows "sql_delete (name_is k) (tbl @ [r]) = tbl"
  using assms by (induction tbl) (auto simp: fetchone_def sql_delete_def name_is_def)

lemma set_columns_Cons: "set_columns ((c, v) # cvs) r = set_columns cvs (r(c := v))"
  by (simp add: set_columns_def)

lemma set_columns_overwrites:
  "c \<in> fst ` set cvs \<Longrightarrow> set_columns cvs (r(c := v)) = set_columns cvs r"
proof (induction cvs arbitrary: r)
  case Nil
  then show ?case by simp
next
  case (Cons a cvs)
  obtain c' v' where a: "a = (c', v')" by force
  show ?case
  proof (cases "c' = c")
    case True
    have "(r(c := v))(c := v') = r(c := v')" by (rule fun_upd_upd)
    then show ?thesis unfolding a True set_columns_Cons by (rule arg_cong)
  next
    case False
    with Cons.prems a have "c \<in> fst ` set cvs" by auto
    from Cons.IH[OF this, of "r(c' := v')"]
    have "set_columns cvs ((r(c' := v'))(c := v)) = set_columns cvs (r(c' := v'))" .
    moreover have "(r(c := v))(c' := v') = (r(c' := v'))(c := v)"
      using False by (rule fun_upd_twist[OF not_sym])
    ultimately show ?thesis unfolding a set_columns_Cons by (rule ssubst[rotated])

  qed
qed

lemma set_columns_other:
  "c \<notin> fst ` set cvs \<Longrightarrow> set_columns cvs r c = r c"
  by (induction cvs arbitrary: r) (auto simp: set_columns_def)

lemma those_length: "those xs = Some ys \<Longrightarrow> length ys = length xs"
  by (induction xs arbitrary: ys) (auto split: option.splits)

lemma metadata_columns:
  assumes "those (map snd (metadata_params u now md)) = Some vs"
  shows "map fst (zip (map fst (metadata_params u now md)) vs)
     = [Title, Description, Subscribers, Active_users, Over_18, Status, Is_accessible,
        Subreddit_type, Created_utc, Last_updated, Icon_url, Primary_color, Advertiser_category,
        Submission_type, Allow_images, Allow_videos, Allow_galleries, Allow_videogifs,
        Allow_polls, Link_flair_enabled, Spoilers_enabled, Whitelist_status, Language,
        Error_message]"
proof -
  have "length vs = length (metadata_params u now md)"
    using those_length[OF assms] by simp
  then have "map fst (zip (map fst (metadata_params u now md)) vs) = map fst (metadata_params u now md)"
    by (simp add: map_fst_zip)
  then show ?thesis by (simp add: metadata_params_def)
qed


lemma update_subreddit_last:
  assumes "fetchone k tbl = None" "r Name = SText k" "lower k = k"
  shows "update_subreddit k st msg mc (tbl @ [r])
     = tbl @ [case mc of
                None \<Rightarrow> r(Status := SText st, Error_message := opt_text msg)
              | Some b \<Rightarrow> r(Status := SText st, Error_message := opt_text msg,
                            Metadata_collected := bool_int b)]"
  unfolding update_subreddit_def assms(3) using assms(1,2) by (rule sql_update_last)

lemma update_subreddit_status_last:
  assumes "fetchone k tbl = None" "r Name = SText k" "lower k = k"
  shows "update_subreddit_status k st msg (tbl @ [r])
     = tbl @ [r(Status := SText st,
                Is_accessible := SInt (if st \<in> {''active'', ''pending''} then 1 else 0),
                Error_message := opt_text msg)]"
  unfolding update_subreddit_status_def Let_def assms(3) using assms(1,2) by (rule sql_update_last)

lemma update_subreddit_metadata_last:
  assumes "fetchone k tbl = None" "r Name = SText k" "lower k = k"
  shows "update_subreddit_metadata u now k md (tbl @ [r])
     = (case those (map snd (metadata_params u now md)) of
          None \<Rightarrow> (False, tbl @ [r])
        | Some vs \<Rightarrow> (True, tbl @ [set_columns (zip (map fst (metadata_params u now md)) vs) r]))"
  unfolding update_subreddit_metadata_def Let_def assms(3)
  using assms(1,2) by (simp add: sql_update_last split: option.splits)


lemma inserted_row_cells:
  "inserted_row k Name = SText k" "inserted_row k Retry_count = SInt 0"
  by (simp_all add: inserted_row_def)

lemma list_mode_as_refresh:
  assumes absent: "fetchone k (db S) = None" and low: "lower k = k"
    and info: "get_subreddit_info w k (reddit_client S) = (Inr (m, st), c)"
    and same: "is_user_profile m
       \<or> (case (if st = ''active'' then m else None) of
             Some (kv # kvs) \<Rightarrow> below_100 (subscribers_of (kv # kvs)) = Some False
           | _ \<Rightarrow> st \<noteq> ''deleted'')"
  shows "db (fst (snd (scan_new w now row k S P)))
           = db (snd (process_subreddit w now k (S\<lparr>db := snd (add_subreddit k (db S))\<rparr>)))
       \<and> consecutive_403s (fst (snd (scan_new w now row k S P)))
           = consecutive_403s
               (snd (process_subreddit w now k (S\<lparr>db := snd (add_subreddit k (db S))\<rparr>)))"
proof -
  define new where "new = inserted_row k"
  define busy where "busy = new(Status := SText ''processing'', Error_message := SNull)"
  have nm: "new Name = SText k" and rc: "new Retry_count = SInt 0"
    by (simp_all add: new_def inserted_row_cells)
  have bnm: "busy Name = SText k" and brc: "busy Retry_count = SInt 0"
    by (simp_all add: busy_def nm rc)
  have add: "snd (add_subreddit k (db S)) = db S @ [new]"
    using absent by (simp add: add_subreddit_def low new_def)
  have proc: "update_subreddit k ''processing'' None None (db S @ [new]) = db S @ [busy]"
    using nm by (simp add: update_subreddit_last[OF absent _ low] busy_def opt_text_def)
  note upd = update_subreddit_last[OF absent _ low] update_subreddit_status_last[OF absent _ low]
    update_subreddit_metadata_last[OF absent _ low] sql_update_last[OF absent]
    sql_delete_last[OF absent]
  note steps = scan_new_def process_subreddit_def handle_result_def handle_notfound_def
    handle_other_def handle_active_def delete_row_def set_retry_count_def Let_def add proc upd
  show ?thesis
  proof (cases "is_user_profile m")
    case True
    then show ?thesis
      using info by (simp add: steps nm bnm)
  next
    case False
    show ?thesis
    proof (cases "if st = ''active'' then m else None")
      case None
      with same False have nd: "st \<noteq> ''deleted''" by simp
      with None info False show ?thesis
        by (simp add: steps nm bnm brc rc busy_def fun_eq_iff)
    next
      case (Some md)
      show ?thesis
      proof (cases md)
        case Nil
        with same False Some have nd: "st \<noteq> ''deleted''" by simp
        with Nil Some info False show ?thesis
          by (simp add: steps nm bnm brc rc busy_def fun_eq_iff)
      next
        case (Cons kv kvs)
        with same False Some have big: "below_100 (subscribers_of (kv # kvs)) = Some False"
          by simp
        then have fmt: "formats_with_commas (subscribers_of (kv # kvs))"
          by (cases "subscribers_of (kv # kvs)")
            (simp_all add: below_100_def formats_with_commas_def)
        have act: "st = ''active''" "m = Some (kv # kvs)"
          using Some Cons by (simp_all split: if_splits)
        define ps where "ps = metadata_params (html_unescape w) now (kv # kvs)"
        show ?thesis
        proof (cases "those (map snd ps)")
          case None
          show ?thesis
            using info act False big fmt None
            by (simp add: steps ps_def[symmetric] nm bnm brc rc busy_def fun_eq_iff)
        next
          case (Some vs)
          define cvs where "cvs = zip (map fst ps) vs"
          have cols: "Status \<in> fst ` set cvs" "Error_message \<in> fst ` set cvs"
            "Name \<notin> fst ` set cvs" "Retry_count \<notin> fst ` set cvs"
            using metadata_columns[OF Some[unfolded ps_def]]
            unfolding cvs_def ps_def set_map[symmetric] by simp_all
          have same_row: "set_columns cvs busy = set_columns cvs new"
            unfolding busy_def by (simp add: set_columns_overwrites cols)
          have kept: "set_columns cvs new Name = SText k" "set_columns cvs new Retry_count = SInt 0"
            by (simp_all add: set_columns_other cols nm rc)
          show ?thesis
            using info act False big fmt Some
            by (simp add: steps ps_def[symmetric] cvs_def[symmetric] nm bnm same_row kept
                fun_eq_iff)
        qed
      qed
    qed
  qed
qed

text \<open>
  List-file mode, item by item. A row whose name is in the Store is a duplicate: the
  state is as before, the client included, so nothing was fetched, and the row is not
  kept. A name that is not in the Store is fetched once. On the classification
  \<^verbatim>\<open>deleted\<close> the row just added is deleted at once, the Store is as before, the
  consecutive-forbidden counter is reset to 0 and no retry count is stored. On these
  outcomes the Store and the counter end as they do when the refresh step runs on the
  Store with the row added as \<^verbatim>\<open>pending\<close>: a user profile, \<^verbatim>\<open>active\<close> with metadata and at
  least 100 subscribers, \<^verbatim>\<open>notfound\<close>, \<^verbatim>\<open>private\<close>, \<^verbatim>\<open>quarantined\<close>, \<^verbatim>\<open>error\<close>. An
  \<^verbatim>\<open>active\<close> item with fewer than 100 subscribers is not stored: the row just added is
  deleted, and the row of the list is neither kept nor counted.
\<close>

lemma list_mode_item:
  "(fetchone (lower (strip (csv_subreddit row))) (db S) = Some r \<longrightarrow>
      scan_row w now row S P
        = (S, P\<lparr>duplicates_removed := duplicates_removed P + 1, processed := processed P + 1\<rparr>))
   \<and> (fetchone (lower (strip (csv_subreddit row))) (db S) = None \<longrightarrow>
        reddit_client (fst (scan_row w now row S P))
          = snd (get_subreddit_info w (lower (strip (csv_subreddit row))) (reddit_client S)))
   \<and> (fetchone (lower (strip (csv_subreddit row))) (db S) = None
        \<and> fst (get_subreddit_info w (lower (strip (csv_subreddit row))) (reddit_client S))
            = Inr (None, ''deleted'') \<longrightarrow>
        db (fst (scan_row w now row S P)) = db S
        \<and> consecutive_403s (fst (scan_row w now row S P)) = 0
        \<and> snd (scan_row w now row S P) = P\<lparr>processed := processed P + 1\<rparr>)
   \<and> (fetchone (lower (strip (csv_subreddit row))) (db S) = None
        \<and> fst (get_subreddit_info w (lower (strip (csv_subreddit row))) (reddit_client S))
            = Inr (m, st)
        \<and> (is_user_profile m
            \<or> (case (if st = ''active'' then m else None) of
                  Some (kv # kvs) \<Rightarrow> below_100 (subscribers_of (kv # kvs)) = Some False
                | _ \<Rightarrow> st \<noteq> ''deleted'')) \<longrightarrow>
        db (fst (scan_row w now row S P))
          = db (snd (process_subreddit w now (lower (strip (csv_subreddit row)))
                  (S\<lparr>db := snd (add_subreddit (lower (strip (csv_subreddit row))) (db S))\<rparr>)))
        \<and> consecutive_403s (fst (scan_row w now row S P))
          = consecutive_403s (snd (process_subreddit w now (lower (strip (csv_subreddit row)))
                  (S\<lparr>db := snd (add_subreddit (lower (strip (csv_subreddit row))) (db S))\<rparr>))))
   \<and> (fetchone (lower (strip (csv_subreddit row))) (db S) = None
        \<and> fst (get_subreddit_info w (lower (strip (csv_subreddit row))) (reddit_client S))
            = Inr (Some (kv # kvs), ''active'')
        \<and> \<not> is_user_profile (Some (kv # kvs))
        \<and> below_100 (subscribers_of (kv # kvs)) = Some True \<longrightarrow>
        db (fst (scan_row w now row S P)) = db S \<and> snd (scan_row w now row S P) = P)"
proof -
  define k where "k = lower (strip (csv_subreddit row))"
  have low: "lower k = k" by (simp add: k_def lower_idem)
  obtain res c where info: "get_subreddit_info w k (reddit_client S) = (res, c)" by force
  have a: "fetchone k (db S) = Some r \<Longrightarrow>
      scan_row w now row S P
        = (S, P\<lparr>duplicates_removed := duplicates_removed P + 1, processed := processed P + 1\<rparr>)"
    by (simp add: scan_row_def k_def[symmetric])
  have new: "fst (scan_row w now row S P) = fst (snd (scan_new w now row k S P))"
    if "fetchone k (db S) = None"
    using that by (simp add: scan_row_def k_def[symmetric] split: prod.splits flow.splits)
  have b: "reddit_client (fst (scan_row w now row S P)) = c" if "fetchone k (db S) = None"
    using info unfolding new[OF that]
    by (auto simp: scan_new_def Let_def delete_row_def split: prod.splits sum.splits
        option.splits list.splits bool.splits)
  have rm: "scan_row w now row S P
        = (track_success (S\<lparr>reddit_client := c, consecutive_403s := 0\<rparr>),
           P\<lparr>processed := processed P + 1\<rparr>)"
    if "fetchone k (db S) = None" "res = Inr (None, ''deleted'')"
  proof -
    from scan_new_removed[OF info[unfolded that(2)] disjI1[OF refl], of now row P]
    show ?thesis
      using that(1) add_then_delete[OF that(1) low]
      by (simp add: scan_row_def k_def[symmetric])
  qed
  have same: "db (fst (scan_row w now row S P))
          = db (snd (process_subreddit w now k (S\<lparr>db := snd (add_subreddit k (db S))\<rparr>)))
        \<and> consecutive_403s (fst (scan_row w now row S P))
          = consecutive_403s
              (snd (process_subreddit w now k (S\<lparr>db := snd (add_subreddit k (db S))\<rparr>)))"
    if "fetchone k (db S) = None" "res = Inr (m, st)"
      "is_user_profile m
       \<or> (case (if st = ''active'' then m else None) of
             Some (kv # kvs) \<Rightarrow> below_100 (subscribers_of (kv # kvs)) = Some False
           | _ \<Rightarrow> st \<noteq> ''deleted'')"
    unfolding new[OF that(1)]
    by (rule list_mode_as_refresh[OF that(1) low info[unfolded that(2)] that(3)])
  have small: "db (fst (scan_row w now row S P)) = db S \<and> snd (scan_row w now row S P) = P"
    if "fetchone k (db S) = None" "res = Inr (Some (kv # kvs), ''active'')"
      "\<not> is_user_profile (Some (kv # kvs))" "below_100 (subscribers_of (kv # kvs)) = Some True"
    using that info add_then_delete[OF that(1) low]
    by (simp add: scan_row_def k_def[symmetric] scan_new_def Let_def delete_row_def)
  show ?thesis
    unfolding k_def[symmetric]
    using a b rm same small info by auto
qed


lemma active_info:
  "get_subreddit_info active_world k fresh_client
     = (Inr (Some [(''subscribers'', JInt 5000)], ''active''),
        snd (get_subreddit_info active_world k fresh_client))"
  by (simp add: active_world_def client_eval classify_payload_def dict_get_def)


lemma list_mode_item_witness:
  "scan_row forbidden_world 0 cats_row (scanner_with [inserted_row ''cats'']) no_progress
     = (scanner_with [inserted_row ''cats''],
        no_progress\<lparr>duplicates_removed := 1, processed := 1\<rparr>)
   \<and> db (fst (scan_row forbidden_world 0 cats_row (scanner_with []) no_progress)) = []
   \<and> consecutive_403s (fst (scan_row forbidden_world 0 cats_row (scanner_with []) no_progress)) = 0
   \<and> db (fst (scan_row active_world 0 cats_row (scanner_with []) no_progress))
       = db (snd (process_subreddit active_world 0 ''cats'' (scanner_with [inserted_row ''cats''])))
   \<and> cell ''cats'' Subscribers
         (db (fst (scan_row active_world 0 cats_row (scanner_with []) no_progress)))
       = Some (SInt 5000)
   \<and> scan_row small_world 0 cats_row (scanner_with []) no_progress
       = (fst (scan_row small_world 0 cats_row (scanner_with []) no_progress), no_progress)
   \<and> db (fst (scan_row small_world 0 cats_row (scanner_with []) no_progress)) = []"
proof -
  have k: "lower (strip (csv_subreddit cats_row)) = ''cats''"
    by (simp add: cats_row_def lower_def strip_def is_space_def)
  have dup: "fetchone (lower (strip (csv_subreddit cats_row))) (db (scanner_with [inserted_row ''cats'']))
      = Some (inserted_row ''cats'')"
    by (simp add: k scanner_with_def fetchone_def name_is_def inserted_row_def)
  have new: "fetchone (lower (strip (csv_subreddit cats_row))) (db (scanner_with [])) = None"
    by (simp add: k scanner_with_def fetchone_def)
  have del: "fst (get_subreddit_info forbidden_world (lower (strip (csv_subreddit cats_row)))
               (reddit_client (scanner_with []))) = Inr (None, ''deleted'')"
    unfolding k using forbidden_info[of "''cats''"] by (simp add: scanner_with_def) (metis fst_conv)
  have act: "fst (get_subreddit_info active_world (lower (strip (csv_subreddit cats_row)))
               (reddit_client (scanner_with [])))
      = Inr (Some [(''subscribers'', JInt 5000)], ''active'')"
    unfolding k using active_info[of "''cats''"] by (simp add: scanner_with_def) (metis fst_conv)
  have big: "is_user_profile (Some [(''subscribers'', JInt 5000)])
     \<or> (case (if ''active'' = ''active'' then Some [(''subscribers'', JInt 5000)] else None) of
           Some (kv # kvs) \<Rightarrow> below_100 (subscribers_of (kv # kvs)) = Some False
         | _ \<Rightarrow> ''active'' \<noteq> ''deleted'')"
    by (simp add: below_100_def subscribers_of_def dict_get_def)
  have added: "(scanner_with [])\<lparr>db := snd (add_subreddit ''cats'' (db (scanner_with [])))\<rparr>
      = scanner_with [inserted_row ''cats'']"
    by (simp add: scanner_with_def add_subreddit_def fetchone_def lower_def)
  from list_mode_item[of cats_row "scanner_with [inserted_row ''cats'']" "inserted_row ''cats''"
      forbidden_world 0 no_progress] dup
  have a: "scan_row forbidden_world 0 cats_row (scanner_with [inserted_row ''cats'']) no_progress
     = (scanner_with [inserted_row ''cats''],
        no_progress\<lparr>duplicates_removed := 1, processed := 1\<rparr>)"
    by (simp add: no_progress_def)
  from list_mode_item[of cats_row "scanner_with []" "inserted_row ''cats''"
      forbidden_world 0 no_progress] new del
  have b: "db (fst (scan_row forbidden_world 0 cats_row (scanner_with []) no_progress)) = db (scanner_with [])
     \<and> consecutive_403s (fst (scan_row forbidden_world 0 cats_row (scanner_with []) no_progress)) = 0"
    by blast
  from list_mode_item[of cats_row "scanner_with []" "inserted_row ''cats''"
      active_world 0 no_progress "Some [(''subscribers'', JInt 5000)]" "''active''"] new act big
  have c: "db (fst (scan_row active_world 0 cats_row (scanner_with []) no_progress))
       = db (snd (process_subreddit active_world 0 ''cats'' (scanner_with [inserted_row ''cats''])))"
    unfolding k added by blast
  have d: "cell ''cats'' Subscribers
         (db (fst (scan_row active_world 0 cats_row (scanner_with []) no_progress)))
       = Some (SInt 5000)"
    by (simp add: scan_row_def scan_new_def cats_row_def lower_def strip_def
        is_space_def scanner_with_def fetchone_def add_subreddit_def is_user_profile_def
        dict_get_def subscribers_of_def below_100_def update_subreddit_metadata_def
        metadata_params_def bind_def decode_html_entities_def set_columns_def
        update_subreddit_def sql_update_def name_is_def inserted_row_def cell_def
        bool_int_def opt_text_def active_world_def client_eval classify_payload_def)
  have few: "fst (get_subreddit_info small_world (lower (strip (csv_subreddit cats_row)))
               (reddit_client (scanner_with [])))
      = Inr (Some [(''subscribers'', JInt 50)], ''active'')"
    unfolding k
    by (simp add: scanner_with_def small_world_def about_small_def client_eval
        classify_payload_def dict_get_def)
  have tiny: "\<not> is_user_profile (Some [(''subscribers'', JInt 50)])"
    "below_100 (subscribers_of [(''subscribers'', JInt 50)]) = Some True"
    by (simp_all add: is_user_profile_def below_100_def subscribers_of_def dict_get_def)
  from list_mode_item[of cats_row "scanner_with []" "inserted_row ''cats''"
      small_world 0 no_progress None "''active''" "(''subscribers'', JInt 50)" "[]"] new few tiny
  have e: "db (fst (scan_row small_world 0 cats_row (scanner_with []) no_progress))
             = db (scanner_with [])
     \<and> snd (scan_row small_world 0 cats_row (scanner_with []) no_progress) = no_progress"
    by blast
  from a b c d e show ?thesis by (simp add: scanner_with_def prod_eq_iff)
qed

text \<open>
  When every request is answered 403, a list-file run processes every row, keeps none of
  them and does not stop, whatever the list; the refresh loop counts the responses and
  stops at the threshold.
\<close>

lemma forbidden_world_fetch:
  assumes "token c = Some (t # ts)" "token_expires c = Some e" "0 < e"
  shows "fst (get_subreddit_info forbidden_world k c) = Inr (None, ''deleted'')"
    and "token (snd (get_subreddit_info forbidden_world k c)) = token c"
    and "token_expires (snd (get_subreddit_info forbidden_world k c)) = token_expires c"
    and "rate_limit_hits (snd (get_subreddit_info forbidden_world k c)) = rate_limit_hits c"
  using assms
  by (simp_all add: forbidden_world_def draw_def quiet_world_def make_request_def
      ensure_token_valid_def read_wall_def try_request_def random_delay_def sleep_def reply_def
      Let_def numeral_3_eq_3 is_success_def status_marker_def get_subreddit_info_def
      fetch_about_def make_diversity_request_def classify_def)


lemma valid_tokenE:
  assumes "valid_token c"
  obtains t ts e where "token c = Some (t # ts)" "token_expires c = Some e" "0 < e"
  using assms by (auto simp: valid_token_def split: option.splits list.splits)

lemma scan_row_forbidden:
  assumes absent: "fetchone (lower (strip (csv_subreddit row))) (db S) = None"
    and tok: "valid_token (reddit_client S)"
  shows "scan_row forbidden_world now row S P
     = (track_success
          (S\<lparr>reddit_client :=
                snd (get_subreddit_info forbidden_world (lower (strip (csv_subreddit row)))
                      (reddit_client S)),
             consecutive_403s := 0\<rparr>),
        P\<lparr>processed := processed P + 1\<rparr>)"
proof -
  define k where "k = lower (strip (csv_subreddit row))"
  have low: "lower k = k" by (simp add: k_def lower_idem)
  from tok obtain t ts e where v:
    "token (reddit_client S) = Some (t # ts)" "token_expires (reddit_client S) = Some e" "0 < e"
    by (rule valid_tokenE)
  have info: "get_subreddit_info forbidden_world k (reddit_client S)
      = (Inr (None, ''deleted''), snd (get_subreddit_info forbidden_world k (reddit_client S)))"
    using forbidden_world_fetch(1)[OF v, of k] by (simp add: prod_eq_iff)
  from scan_new_removed[OF info disjI1[OF refl], of now row P]
  show ?thesis
    using absent add_then_delete[OF absent[folded k_def] low]
    by (simp add: scan_row_def k_def[symmetric])
qed

lemma scan_rows_all_forbidden:
  assumes "\<forall>row \<in> set rows. fetchone (lower (strip (csv_subreddit row))) (db S) = None"
    and "valid_token (reddit_client S)"
    and "\<not> shutdown_requested S"
    and "consecutive_403s S < max_consecutive_403 cfg"
    and "rate_limit_hits (reddit_client S) < max_total_429 cfg"
    and "processed P + length rows \<le> lim_rows"
  shows "db (fst (scan_rows forbidden_world cfg lim_rows rows idx S P)) = db S
     \<and> \<not> shutdown_requested (fst (scan_rows forbidden_world cfg lim_rows rows idx S P))
     \<and> consecutive_403s (fst (scan_rows forbidden_world cfg lim_rows rows idx S P))
         = (if rows = [] then consecutive_403s S else 0)
     \<and> processed (snd (scan_rows forbidden_world cfg lim_rows rows idx S P))
         = processed P + length rows
     \<and> rows_to_keep (snd (scan_rows forbidden_world cfg lim_rows rows idx S P)) = rows_to_keep P"
  using assms
proof (induction rows arbitrary: idx S P)
  case Nil
  then show ?case by simp
next
  case (Cons row rest)
  define S1 where "S1 = S\<lparr>total_429s := rate_limit_hits (reddit_client S)\<rparr>"
  define c where "c = snd (get_subreddit_info forbidden_world (lower (strip (csv_subreddit row)))
                      (reddit_client S))"
  define S2 where "S2 = track_success (S1\<lparr>reddit_client := c, consecutive_403s := 0\<rparr>)"
  define P2 where "P2 = P\<lparr>processed := processed P + 1\<rparr>"
  have chk: "check_error_thresholds cfg S = (False, S1)"
    using Cons.prems(4,5) by (simp add: check_error_thresholds_def Let_def S1_def)
  have row: "scan_row forbidden_world (epoch forbidden_world (idx + 1)) row S1 P = (S2, P2)"
    using scan_row_forbidden[of row S1 "epoch forbidden_world (idx + 1)" P] Cons.prems(1,2)
    by (simp add: S1_def S2_def c_def P2_def)
  from Cons.prems(2) obtain t ts e where v:
    "token (reddit_client S) = Some (t # ts)" "token_expires (reddit_client S) = Some e" "0 < e"
    by (rule valid_tokenE)
  have tok2: "valid_token (reddit_client S2)"
    using forbidden_world_fetch(2,3)[OF v] v
    by (simp add: S2_def c_def valid_token_def)
  have hits2: "rate_limit_hits (reddit_client S2) = rate_limit_hits (reddit_client S)"
    using forbidden_world_fetch(4)[OF v] by (simp add: S2_def c_def)
  have db2: "db S2 = db S" by (simp add: S2_def S1_def)
  have sh2: "\<not> shutdown_requested S2"
    using Cons.prems(3) by (simp add: S2_def S1_def track_success_def Let_def)
  have c2: "consecutive_403s S2 = 0" by (simp add: S2_def)
  have step: "scan_rows forbidden_world cfg lim_rows (row # rest) idx S P
      = scan_rows forbidden_world cfg lim_rows rest (idx + 1) S2 P2"
    using Cons.prems(3,6) row by (simp add: chk)
  have ih: "db (fst (scan_rows forbidden_world cfg lim_rows rest (idx + 1) S2 P2)) = db S2
     \<and> \<not> shutdown_requested (fst (scan_rows forbidden_world cfg lim_rows rest (idx + 1) S2 P2))
     \<and> consecutive_403s (fst (scan_rows forbidden_world cfg lim_rows rest (idx + 1) S2 P2))
         = (if rest = [] then consecutive_403s S2 else 0)
     \<and> processed (snd (scan_rows forbidden_world cfg lim_rows rest (idx + 1) S2 P2))
         = processed P2 + length rest
     \<and> rows_to_keep (snd (scan_rows forbidden_world cfg lim_rows rest (idx + 1) S2 P2))
         = rows_to_keep P2"
  proof (rule Cons.IH)
    show "\<forall>row \<in> set rest. fetchone (lower (strip (csv_subreddit row))) (db S2) = None"
      using Cons.prems(1) by (simp add: db2)
    show "valid_token (reddit_client S2)" by (rule tok2)
    show "\<not> shutdown_requested S2" by (rule sh2)
    show "consecutive_403s S2 < max_consecutive_403 cfg" using Cons.prems(4) by (simp add: c2)
    show "rate_limit_hits (reddit_client S2) < max_total_429 cfg"
      using Cons.prems(5) by (simp add: hits2)
    show "processed P2 + length rest \<le> lim_rows" using Cons.prems(6) by (simp add: P2_def)
  qed
  show ?case
    unfolding step using ih by (simp add: db2 c2 P2_def)
qed


lemma run_csv_scan_all_forbidden:
  "db (fst (run_csv_scan forbidden_world default_config file_rows (scanner_with []))) = []
   \<and> \<not> shutdown_requested (fst (run_csv_scan forbidden_world default_config file_rows (scanner_with [])))
   \<and> processed (snd (run_csv_scan forbidden_world default_config file_rows (scanner_with [])))
       = length (filter (\<lambda>r. csv_subreddit r \<noteq> []) file_rows)
   \<and> rows_to_keep (snd (run_csv_scan forbidden_world default_config file_rows (scanner_with []))) = []"
proof -
  define rows where
    "rows = sort_key (\<lambda>r. - csv_subscribers r) (filter (\<lambda>r. csv_subreddit r \<noteq> []) file_rows)"
  define S where "S = (scanner_with [])\<lparr>running := True\<rparr>"
  define P where "P = \<lparr>processed = 0, duplicates_removed = 0, scanned_and_saved = 0, errors = 0,
                       rows_to_keep = []\<rparr>"
  have len: "length rows = length (filter (\<lambda>r. csv_subreddit r \<noteq> []) file_rows)"
    by (simp add: rows_def)
  have run: "run_csv_scan forbidden_world default_config file_rows (scanner_with [])
      = (fst (scan_rows forbidden_world default_config (length rows) rows 0 S P)\<lparr>running := False\<rparr>,
         snd (scan_rows forbidden_world default_config (length rows) rows 0 S P))"
    by (simp add: run_csv_scan_def Let_def rows_def[symmetric] S_def P_def scanner_with_def
        split: prod.splits)
  have "db (fst (scan_rows forbidden_world default_config (length rows) rows 0 S P)) = db S
     \<and> \<not> shutdown_requested (fst (scan_rows forbidden_world default_config (length rows) rows 0 S P))
     \<and> consecutive_403s (fst (scan_rows forbidden_world default_config (length rows) rows 0 S P))
         = (if rows = [] then consecutive_403s S else 0)
     \<and> processed (snd (scan_rows forbidden_world default_config (length rows) rows 0 S P))
         = processed P + length rows
     \<and> rows_to_keep (snd (scan_rows forbidden_world default_config (length rows) rows 0 S P))
         = rows_to_keep P"
    by (rule scan_rows_all_forbidden)
       (simp_all add: S_def P_def scanner_with_def fetchone_def valid_token_def fresh_client_def
          default_config_def)
  then show ?thesis
    unfolding run by (simp add: S_def P_def scanner_with_def len)
qed

lemma fetchone_other_name:
  assumes "fetchone k' tbl = Some r" "k' \<noteq> k" "\<And>r. f r Name = r Name"
  shows "fetchone k' (sql_update (name_is k) f tbl) = Some r"
  using assms by (induction tbl) (auto simp: fetchone_def sql_update_def name_is_def)

lemma run_items_all_forbidden:
  assumes "distinct names"
    and "\<forall>k \<in> set names. lower k = k
           \<and> map_option (\<lambda>r. r Retry_count) (fetchone k (db S)) = Some (SInt 0)"
    and "valid_token (reddit_client S)"
    and "\<not> shutdown_requested S"
    and "consecutive_403s S < max_consecutive_403 cfg"
    and "rate_limit_hits (reddit_client S) < max_total_429 cfg"
  shows "consecutive_403s (run_items forbidden_world cfg names idx S)
           = min (consecutive_403s S + length names) (max_consecutive_403 cfg)
     \<and> shutdown_requested (run_items forbidden_world cfg names idx S)
           = (max_consecutive_403 cfg \<le> consecutive_403s S + length names)"
  using assms
proof (induction names arbitrary: idx S)
  case Nil
  then show ?case by simp
next
  case (Cons k rest)
  define S1 where "S1 = S\<lparr>total_429s := rate_limit_hits (reddit_client S)\<rparr>"
  define c where "c = snd (get_subreddit_info forbidden_world k (reddit_client S))"
  define t2 where "t2 = sql_update (name_is k) (\<lambda>r. r(Retry_count := SInt (0 + 1)))
                    (update_subreddit k ''processing'' None None (db S))"
  define S2 where "S2 = S1\<lparr>db := t2, reddit_client := c,
                           consecutive_403s := consecutive_403s S + 1\<rparr>"
  define S3 where "S3 = S2\<lparr>total_429s := rate_limit_hits (reddit_client S2)\<rparr>"
  from Cons.prems(3) obtain t ts e where v:
    "token (reddit_client S) = Some (t # ts)" "token_expires (reddit_client S) = Some e" "0 < e"
    by (rule valid_tokenE)
  from Cons.prems(2) obtain r where r: "fetchone k (db S) = Some r" "r Retry_count = SInt 0"
    and low: "lower k = k"
    by auto
  have chk: "check_error_thresholds cfg S = (False, S1)"
    using Cons.prems(5,6) by (simp add: check_error_thresholds_def Let_def S1_def)
  have info: "get_subreddit_info forbidden_world k (reddit_client S1) = (Inr (None, ''deleted''), c)"
    using forbidden_world_fetch(1)[OF v, of k] by (simp add: prod_eq_iff S1_def c_def)
  have item: "process_subreddit forbidden_world (epoch forbidden_world (idx + 1)) k S1 = (True, S2)"
    using process_subreddit_forbidden_eq[OF info, of r 0] r
    by (simp add: S1_def S2_def t2_def)
  have hits: "rate_limit_hits (reddit_client S2) = rate_limit_hits (reddit_client S)"
    using forbidden_world_fetch(4)[OF v] by (simp add: S2_def c_def)
  show ?case
  proof (cases "max_consecutive_403 cfg \<le> consecutive_403s S + 1")
    case True
    then have chk2: "check_error_thresholds cfg S2 = (True, S3)"
      by (simp add: check_error_thresholds_def Let_def S3_def S2_def)
    have "run_items forbidden_world cfg (k # rest) idx S = S3\<lparr>shutdown_requested := True\<rparr>"
      using Cons.prems(4) item by (simp add: chk chk2)
    then show ?thesis
      using True Cons.prems(5) by (simp add: S3_def S2_def)
  next
    case False
    then have chk2: "check_error_thresholds cfg S2 = (False, S3)"
      using Cons.prems(6) hits by (simp add: check_error_thresholds_def Let_def S3_def S2_def)
    have step: "run_items forbidden_world cfg (k # rest) idx S
        = run_items forbidden_world cfg rest (idx + 1) S3"
      using Cons.prems(4) item by (simp add: chk chk2)
    have others: "\<forall>k' \<in> set rest. lower k' = k'
           \<and> map_option (\<lambda>r. r Retry_count) (fetchone k' (db S3)) = Some (SInt 0)"
    proof
      fix k' assume k': "k' \<in> set rest"
      with Cons.prems(1) have ne: "k' \<noteq> k" by auto
      from k' Cons.prems(2) obtain r' where r': "fetchone k' (db S) = Some r'"
        "r' Retry_count = SInt 0" and low': "lower k' = k'"
        by auto
      have "fetchone k' t2 = Some r'"
        unfolding t2_def update_subreddit_def low
        by (rule fetchone_other_name[OF fetchone_other_name[OF r'(1) ne] ne]) simp_all
      then have "fetchone k' (db S3) = Some r'"
        by (simp add: S3_def S2_def)
      with r'(2) low' show "lower k' = k'
           \<and> map_option (\<lambda>r. r Retry_count) (fetchone k' (db S3)) = Some (SInt 0)"
        by simp
    qed
    have ih: "consecutive_403s (run_items forbidden_world cfg rest (idx + 1) S3)
           = min (consecutive_403s S3 + length rest) (max_consecutive_403 cfg)
     \<and> shutdown_requested (run_items forbidden_world cfg rest (idx + 1) S3)
           = (max_consecutive_403 cfg \<le> consecutive_403s S3 + length rest)"
    proof (rule Cons.IH)
      show "distinct rest" using Cons.prems(1) by simp
      show "\<forall>k \<in> set rest. lower k = k
           \<and> map_option (\<lambda>r. r Retry_count) (fetchone k (db S3)) = Some (SInt 0)"
        by (rule others)
      show "valid_token (reddit_client S3)"
        using forbidden_world_fetch(2,3)[OF v] v
        by (simp add: S3_def S2_def c_def valid_token_def)
      show "\<not> shutdown_requested S3"
        using Cons.prems(4) by (simp add: S3_def S2_def S1_def)
      show "consecutive_403s S3 < max_consecutive_403 cfg"
        using False by (simp add: S3_def S2_def)
      show "rate_limit_hits (reddit_client S3) < max_total_429 cfg"
        using Cons.prems(6) hits by (simp add: S3_def)
    qed
    show ?thesis
      unfolding step using ih by (simp add: S3_def S2_def)
  qed
qed


lemma twelve_forbidden_items:
  "processed (snd (run_csv_scan forbidden_world default_config twelve_rows (scanner_with []))) = 12
   \<and> rows_to_keep (snd (run_csv_scan forbidden_world default_config twelve_rows (scanner_with []))) = []
   \<and> db (fst (run_csv_scan forbidden_world default_config twelve_rows (scanner_with []))) = []
   \<and> \<not> shutdown_requested
         (fst (run_csv_scan forbidden_world default_config twelve_rows (scanner_with [])))
   \<and> consecutive_403s (run_items forbidden_world default_config twelve_names 0
         (scanner_with (map refreshed_row twelve_names))) = 10
   \<and> shutdown_requested (run_items forbidden_world default_config twelve_names 0
         (scanner_with (map refreshed_row twelve_names)))"
proof -
  have rows: "length (filter (\<lambda>r. csv_subreddit r \<noteq> []) twelve_rows) = 12"
    by (simp add: twelve_rows_def twelve_names_def)
  have names: "\<forall>k \<in> set twelve_names. lower k = k
     \<and> map_option (\<lambda>r. r Retry_count)
           (fetchone k (db (scanner_with (map refreshed_row twelve_names)))) = Some (SInt 0)"
    by (simp add: twelve_names_def scanner_with_def fetchone_def name_is_def refreshed_row_def
        inserted_row_def lower_def)
  have "consecutive_403s (run_items forbidden_world default_config twelve_names 0
            (scanner_with (map refreshed_row twelve_names)))
          = min (consecutive_403s (scanner_with (map refreshed_row twelve_names)) + length twelve_names)
              (max_consecutive_403 default_config)
     \<and> shutdown_requested (run_items forbidden_world default_config twelve_names 0
            (scanner_with (map refreshed_row twelve_names)))
          = (max_consecutive_403 default_config
               \<le> consecutive_403s (scanner_with (map refreshed_row twelve_names)) + length twelve_names)"
    by (rule run_items_all_forbidden[OF _ names])
       (simp_all add: twelve_names_def scanner_with_def valid_token_def fresh_client_def
          default_config_def)
  then have refresh: "consecutive_403s (run_items forbidden_world default_config twelve_names 0
         (scanner_with (map refreshed_row twelve_names))) = 10
   \<and> shutdown_requested (run_items forbidden_world default_config twelve_names 0
         (scanner_with (map refreshed_row twelve_names)))"
    by (simp add: twelve_names_def scanner_with_def default_config_def)
  from run_csv_scan_all_forbidden[of twelve_rows] rows refresh show ?thesis by simp
qed

text \<open>
  Claim C3, evaluated. The same new item with the same 403 response. In list-file mode
  the row just added is deleted at once, the consecutive-forbidden counter is set to 0
  and no retry count is stored; the refresh step on the row added as \<^verbatim>\<open>pending\<close> puts
  the counter to 1 and stores retry count 1. So the classification \<^verbatim>\<open>deleted\<close> has no
  retry budget in list-file mode and, by the lemmas above, a list-file run never reaches
  the threshold of consecutive 403 responses.
\<close>

theorem list_mode_forbidden_item_differs:
  "consecutive_403s (fst (scan_row forbidden_world 0 cats_row (scanner_with []) no_progress)) = 0
   \<and> db (fst (scan_row forbidden_world 0 cats_row (scanner_with []) no_progress)) = []
   \<and> consecutive_403s
        (snd (process_subreddit forbidden_world 0 ''cats'' (scanner_with [inserted_row ''cats'']))) = 1
   \<and> cell ''cats'' Retry_count
        (db (snd (process_subreddit forbidden_world 0 ''cats'' (scanner_with [inserted_row ''cats'']))))
       = Some (SInt 1)"
proof -
  have i: "get_subreddit_info forbidden_world ''cats''
             (reddit_client (scanner_with [inserted_row ''cats'']))
     = (Inr (None, ''deleted''), snd (get_subreddit_info forbidden_world ''cats'' fresh_client))"
    using forbidden_info[of "''cats''"] by (simp add: scanner_with_def)
  have r: "fetchone ''cats'' (db (scanner_with [inserted_row ''cats''])) = Some (inserted_row ''cats'')"
    by (simp add: scanner_with_def fetchone_def name_is_def inserted_row_def)
  have n: "inserted_row ''cats'' Retry_count = SInt 0"
    by (simp add: inserted_row_def)
  note p = process_subreddit_forbidden_eq[OF i r n, of 0]
  have k: "lower (strip (csv_subreddit cats_row)) = ''cats''"
    by (simp add: cats_row_def lower_def strip_def is_space_def)
  have i2: "get_subreddit_info forbidden_world ''cats'' (reddit_client (scanner_with []))
     = (Inr (None, ''deleted''), snd (get_subreddit_info forbidden_world ''cats'' fresh_client))"
    using forbidden_info[of "''cats''"] by (simp add: scanner_with_def)
  have s: "scan_row forbidden_world 0 cats_row (scanner_with []) no_progress
     = (track_success ((scanner_with [])
          \<lparr>db := sql_delete (name_is ''cats'') (snd (add_subreddit ''cats'' (db (scanner_with [])))),
           reddit_client := snd (get_subreddit_info forbidden_world ''cats'' fresh_client),
           consecutive_403s := 0\<rparr>),
        no_progress\<lparr>processed := processed no_progress + 1\<rparr>)"
    using scan_new_removed[OF i2 disjI1[OF refl], of 0 cats_row no_progress]
    by (simp add: scan_row_def k scanner_with_def fetchone_def)
  show ?thesis
    unfolding p s
    by (simp add: scanner_with_def cell_def fetchone_def name_is_def
        inserted_row_def update_subreddit_def sql_update_def sql_delete_def lower_def opt_text_def
        track_success_def add_subreddit_def)
qed

lemma fix_inconsistent_states_counts:
  "fst (fix_inconsistent_states tbl)
     = (rowcount pending_with_metadata tbl, rowcount completed_without_metadata tbl)"
proof -
  have "filter completed_without_metadata
          (sql_update pending_with_metadata (\<lambda>r. r(Metadata_collected := SInt 0)) tbl)
      = filter completed_without_metadata tbl"
    by (induction tbl)
       (auto simp: sql_update_def pending_with_metadata_def completed_without_metadata_def)
  then show ?thesis by (simp add: fix_inconsistent_states_def Let_def rowcount_def)
qed

text \<open>
  Claim C7. \<^verbatim>\<open>fix_inconsistent_states\<close> sets \<^verbatim>\<open>metadata_collected\<close> to 0 on every row
  that is \<^verbatim>\<open>pending\<close> with metadata collected, sets the status to \<^verbatim>\<open>pending\<close> on every row
  that is \<^verbatim>\<open>completed\<close> without metadata, leaves every other row as it is and reports the
  two counts; afterwards no row is \<^verbatim>\<open>pending\<close> with metadata collected. \<^verbatim>\<open>run\<close> applies it
  first: the work list is taken from the repaired Store and the items are processed from
  there.
\<close>

theorem fix_inconsistent_states_repairs:
  "length (snd (fix_inconsistent_states tbl)) = length tbl
   \<and> (\<forall>i < length tbl.
        (pending_with_metadata (tbl ! i) \<longrightarrow>
           snd (fix_inconsistent_states tbl) ! i = (tbl ! i)(Metadata_collected := SInt 0))
      \<and> (completed_without_metadata (tbl ! i) \<longrightarrow>
           snd (fix_inconsistent_states tbl) ! i = (tbl ! i)(Status := SText ''pending''))
      \<and> (\<not> pending_with_metadata (tbl ! i) \<and> \<not> completed_without_metadata (tbl ! i) \<longrightarrow>
           snd (fix_inconsistent_states tbl) ! i = tbl ! i))
   \<and> (\<forall>r \<in> set (snd (fix_inconsistent_states tbl)). \<not> pending_with_metadata r)
   \<and> fst (fix_inconsistent_states tbl)
       = (rowcount pending_with_metadata tbl, rowcount completed_without_metadata tbl)
   \<and> db (repaired S) = snd (fix_inconsistent_states (db S))
   \<and> run w cfg S = (run_items w cfg (work_list w (repaired S)) 0 (repaired S))\<lparr>running := False\<rparr>"
proof (intro conjI allI impI ballI)
  show "length (snd (fix_inconsistent_states tbl)) = length tbl"
    by (simp add: fix_inconsistent_states_def Let_def)
next
  fix i assume "i < length tbl" "pending_with_metadata (tbl ! i)"
  then show "snd (fix_inconsistent_states tbl) ! i = (tbl ! i)(Metadata_collected := SInt 0)"
    using fix_inconsistent_states_rows by simp
next
  fix i assume "i < length tbl" "completed_without_metadata (tbl ! i)"
  then show "snd (fix_inconsistent_states tbl) ! i = (tbl ! i)(Status := SText ''pending'')"
    using fix_inconsistent_states_rows
    by (auto simp: pending_with_metadata_def completed_without_metadata_def)
next
  fix i assume "i < length tbl"
    "\<not> pending_with_metadata (tbl ! i) \<and> \<not> completed_without_metadata (tbl ! i)"
  then show "snd (fix_inconsistent_states tbl) ! i = tbl ! i"
    using fix_inconsistent_states_rows by simp
next
  fix r assume "r \<in> set (snd (fix_inconsistent_states tbl))"
  then show "\<not> pending_with_metadata r" by (rule fix_inconsistent_states_none_pending)
next
  show "fst (fix_inconsistent_states tbl)
       = (rowcount pending_with_metadata tbl, rowcount completed_without_metadata tbl)"
    by (rule fix_inconsistent_states_counts)
next
  show "db (repaired S) = snd (fix_inconsistent_states (db S))"
    by (simp add: repaired_def)
next
  show "run w cfg S = (run_items w cfg (work_list w (repaired S)) 0 (repaired S))\<lparr>running := False\<rparr>"
    by (simp add: run_def Let_def)
qed

theorem fix_inconsistent_states_repairs_witness:
  "pending_with_metadata ((inserted_row ''x'')(Metadata_collected := SInt 1))
   \<and> (snd (fix_inconsistent_states [(inserted_row ''x'')(Metadata_collected := SInt 1)]) ! 0)
        Metadata_collected = SInt 0
   \<and> (snd (fix_inconsistent_states [(inserted_row ''x'')(Metadata_collected := SInt 1)]) ! 0)
        Status = SText ''pending''"
proof -
  have h: "pending_with_metadata ([(inserted_row ''x'')(Metadata_collected := SInt 1)] ! 0)"
    by (simp add: pending_with_metadata_def inserted_row_def)
  from fix_inconsistent_states_repairs[of "[(inserted_row ''x'')(Metadata_collected := SInt 1)]"] h
  have "snd (fix_inconsistent_states [(inserted_row ''x'')(Metadata_collected := SInt 1)]) ! 0
      = ((inserted_row ''x'')(Metadata_collected := SInt 1))(Metadata_collected := SInt 0)"
    by simp
  with h show ?thesis by (simp add: inserted_row_def)
qed

end
